theory Spec2Isabelle
  imports Main "HOL-Library.AList"
begin

section \<open>JavaScript string primitives used by the plugin\<close>

text \<open>
  Strings are lists of characters. The plugin only ever inspects ASCII characters
  (the dot, the slash, the dollar sign, the letters of the extension and MIME tokens),
  so an 8-bit character stands for one code unit of the JavaScript string.
\<close>

fun starts_with :: "string \<Rightarrow> string \<Rightarrow> bool" where
  "starts_with s [] = True"
| "starts_with [] (p # ps) = False"
| "starts_with (c # cs) (p # ps) = (c = p \<and> starts_with cs ps)"

text \<open>\<^verbatim>\<open>s.indexOf(p)\<close>: the position of the first occurrence, \<open>None\<close> for JavaScript's -1.\<close>

fun index_of :: "string \<Rightarrow> string \<Rightarrow> nat option" where
  "index_of [] p = (if p = [] then Some 0 else None)"
| "index_of (c # cs) p =
     (if starts_with (c # cs) p then Some 0 else map_option Suc (index_of cs p))"

text \<open>\<^verbatim>\<open>s.includes(p)\<close>.\<close>

definition str_includes :: "string \<Rightarrow> string \<Rightarrow> bool" where
  "str_includes s p = (index_of s p \<noteq> None)"

text \<open>
  The replacement text of \<^verbatim>\<open>String.prototype.replace\<close> is a template: \<^verbatim>\<open>$$\<close> stands for
  a dollar sign, \<^verbatim>\<open>$&\<close> for the matched text, \<^verbatim>\<open>$`\<close> for the text before the match and
  \<^verbatim>\<open>$'\<close> for the text after it. A string pattern has no capture groups, so every other
  use of the dollar sign is literal.
\<close>

fun get_substitution :: "string \<Rightarrow> string \<Rightarrow> string \<Rightarrow> string \<Rightarrow> string" where
  "get_substitution matched pre post [] = []"
| "get_substitution matched pre post [c] = [c]"
| "get_substitution matched pre post (c # d # r) =
     (if c = CHR ''$'' then
        (if d = CHR ''$'' then CHR ''$'' # get_substitution matched pre post r
         else if d = CHR ''&'' then matched @ get_substitution matched pre post r
         else if d = CHR 0x60 then pre @ get_substitution matched pre post r
         else if d = CHR 0x27 then post @ get_substitution matched pre post r
         else c # get_substitution matched pre post (d # r))
      else c # get_substitution matched pre post (d # r))"

text \<open>
  \<^verbatim>\<open>s.replace(p, r)\<close> with a string pattern \<open>p\<close>: only the first occurrence of \<open>p\<close> is
  replaced; without an occurrence the string is returned as it is.
\<close>

definition str_replace :: "string \<Rightarrow> string \<Rightarrow> string \<Rightarrow> string" where
  "str_replace s p r =
     (case index_of s p of
        None \<Rightarrow> s
      | Some i \<Rightarrow>
          take i s @ get_substitution p (take i s) (drop (i + length p) s) r
            @ drop (i + length p) s)"

text \<open>\<^verbatim>\<open>values.join(sep)\<close>.\<close>

fun join :: "string \<Rightarrow> string list \<Rightarrow> string" where
  "join sep [] = []"
| "join sep [x] = x"
| "join sep (x # y # ys) = x @ sep @ join sep (y # ys)"

section \<open>The two regular expressions\<close>

text \<open>
  Both regular expressions are a literal text followed by an alternation of literal
  texts, matched with the \<^verbatim>\<open>i\<close> flag. \<^verbatim>\<open>/\.(jpe?g|png|gif|avif)/\<close> matches at a position
  exactly when one of the five texts below starts there (ignoring case), and no text is
  a prefix of another one, so the match is that text. Under the \<^verbatim>\<open>i\<close> flag two
  characters match when their upper-case forms agree; a character outside ASCII never
  matches an ASCII one.
\<close>

definition to_upper_ascii :: "char \<Rightarrow> char" where
  "to_upper_ascii c =
     (case map_of (zip ''abcdefghijklmnopqrstuvwxyz'' ''ABCDEFGHIJKLMNOPQRSTUVWXYZ'') c of
        Some u \<Rightarrow> u
      | None \<Rightarrow> c)"

definition ci_char :: "char \<Rightarrow> char \<Rightarrow> bool" where
  "ci_char p c = (to_upper_ascii p = to_upper_ascii c)"

text \<open>\<open>ci_prefix p s\<close>: the pattern text \<open>p\<close> starts the string \<open>s\<close>, ignoring case.\<close>

fun ci_prefix :: "string \<Rightarrow> string \<Rightarrow> bool" where
  "ci_prefix [] s = True"
| "ci_prefix (p # ps) [] = False"
| "ci_prefix (p # ps) (c # cs) = (ci_char p c \<and> ci_prefix ps cs)"

definition extension_tokens :: "string list" where
  "extension_tokens = [''.jpeg'', ''.jpg'', ''.png'', ''.gif'', ''.avif'']"

definition mime_tokens :: "string list" where
  "mime_tokens = [''image/jpeg'', ''image/png'', ''image/gif'', ''image/avif'']"

text \<open>The match of the regular expression at the start of \<open>s\<close>, if there is one.\<close>

definition re_match :: "string list \<Rightarrow> string \<Rightarrow> string option" where
  "re_match toks s = find (\<lambda>t. ci_prefix t s) toks"

text \<open>\<^verbatim>\<open>regex.test(s)\<close> without the \<^verbatim>\<open>g\<close> flag: is there a match at some position?\<close>

fun re_test :: "string list \<Rightarrow> string \<Rightarrow> bool" where
  "re_test toks [] = False"
| "re_test toks (c # cs) = (re_match toks (c # cs) \<noteq> None \<or> re_test toks cs)"

text \<open>
  \<^verbatim>\<open>s.replace(regex, rep)\<close> with the \<^verbatim>\<open>g\<close> flag: the string is scanned from the left; at a
  match the replacement is emitted and the scan goes on behind the match, otherwise the
  character is copied. The two replacement texts of the plugin contain no dollar sign,
  so they are emitted as they are. A match \<open>t\<close> is never empty, so skipping
  \<open>length t - 1\<close> characters behind the first one skips the match.
\<close>

function re_replace_all :: "string list \<Rightarrow> string \<Rightarrow> string \<Rightarrow> string" where
  "re_replace_all toks rep [] = []"
| "re_replace_all toks rep (c # cs) =
     (case re_match toks (c # cs) of
        Some t \<Rightarrow> rep @ re_replace_all toks rep (drop (length t - 1) cs)
      | None \<Rightarrow> c # re_replace_all toks rep cs)"
  by pat_completeness auto
termination
  by (relation "measure (\<lambda>(toks, rep, s). length s)") auto

section \<open>The stylesheet tree of the host engine\<close>

text \<open>
  A declaration has a property name and a value; \<open>important\<close> is the flag the engine
  keeps beside the value.
\<close>

record decl =
  decl_prop :: string
  decl_value :: string
  decl_important :: bool

text \<open>
  A rule node carries a reference (the identity of the object, which is the key of the
  plugin's two maps), its selector string (\<^verbatim>\<open>rule.selector\<close>) and its children. The
  selector list \<^verbatim>\<open>rule.selectors\<close> is not stored: the engine computes it from the selector
  string whenever it is read. Rules, at-rules and the root are containers; a rule may
  hold rules and at-rules besides declarations.
\<close>

datatype node =
    Decl decl
  | Rule nat string "node list"
  | AtRule string string "node list"
  | Comment string

text \<open>All declarations below a list of nodes, in the order \<^verbatim>\<open>walkDecls\<close> visits them.\<close>

fun decls_of :: "node list \<Rightarrow> decl list" where
  "decls_of [] = []"
| "decls_of (Decl d # ns) = d # decls_of ns"
| "decls_of (Rule j sel kids # ns) = decls_of kids @ decls_of ns"
| "decls_of (AtRule name params kids # ns) = decls_of kids @ decls_of ns"
| "decls_of (Comment t # ns) = decls_of ns"

text \<open>\<^verbatim>\<open>declaration.remove()\<close> for every visited declaration that satisfies \<open>p\<close>.\<close>

fun remove_decls :: "(decl \<Rightarrow> bool) \<Rightarrow> node list \<Rightarrow> node list" where
  "remove_decls p [] = []"
| "remove_decls p (Decl d # ns) =
     (if p d then remove_decls p ns else Decl d # remove_decls p ns)"
| "remove_decls p (Rule j sel kids # ns) =
     Rule j sel (remove_decls p kids) # remove_decls p ns"
| "remove_decls p (AtRule name params kids # ns) =
     AtRule name params (remove_decls p kids) # remove_decls p ns"
| "remove_decls p (Comment t # ns) = Comment t # remove_decls p ns"

text \<open>The references of all rules below a list of nodes, in document order.\<close>

fun refs_of :: "node list \<Rightarrow> nat list" where
  "refs_of [] = []"
| "refs_of (Decl d # ns) = refs_of ns"
| "refs_of (Rule j sel kids # ns) = j # refs_of kids @ refs_of ns"
| "refs_of (AtRule name params kids # ns) = refs_of kids @ refs_of ns"
| "refs_of (Comment t # ns) = refs_of ns"

section \<open>The plugin options\<close>

record options =
  predicate :: "decl \<Rightarrow> bool"
  rename :: "decl \<Rightarrow> string"
  noWebpClass :: string
  webpClass :: string
  noJsClass :: string
  addNoJs :: bool
  modules :: bool

text \<open>The default \<^verbatim>\<open>predicate\<close>: \<^verbatim>\<open>/\.(jpe?g|png|gif|avif)/i.test(declaration.value)\<close>.\<close>

definition default_predicate :: "decl \<Rightarrow> bool" where
  "default_predicate d = re_test extension_tokens (decl_value d)"

text \<open>
  The default \<^verbatim>\<open>rename\<close>: the extensions are replaced first, the MIME tokens in the
  result of that.
\<close>

definition default_rename :: "decl \<Rightarrow> string" where
  "default_rename d =
     re_replace_all mime_tokens ''image/webp''
       (re_replace_all extension_tokens ''.webp'' (decl_value d))"

definition default_options :: options where
  "default_options =
     \<lparr> predicate = default_predicate, rename = default_rename,
       noWebpClass = ''no-webp'', webpClass = ''webp'', noJsClass = ''no-js'',
       addNoJs = False, modules = False \<rparr>"

section \<open>transformSelectors\<close>

text \<open>The first line of \<^verbatim>\<open>transformSelectors\<close>: the class name becomes the marker token.\<close>

definition marker_token :: "options \<Rightarrow> string \<Rightarrow> string" where
  "marker_token opts className =
     (if modules opts then '':global(.'' @ className @ '')'' else ''.'' @ className)"

text \<open>
  The strip step,
  \<^verbatim>\<open>selector.replace(className, "").replace(":root", "")\<close>: two replacements with a string
  pattern.
\<close>

definition strip_selector :: "string \<Rightarrow> string \<Rightarrow> string" where
  "strip_selector token selector =
     str_replace (str_replace selector token []) '':root'' []"

text \<open>The body of the \<^verbatim>\<open>map\<close> callback, for the marker token \<open>token\<close>.\<close>

definition transformSelector :: "string \<Rightarrow> string \<Rightarrow> string" where
  "transformSelector token selector =
     (let cleaned = strip_selector token selector in
      if str_includes cleaned ''html'' then str_replace cleaned ''html'' (''html'' @ token)
      else if cleaned \<noteq> [] then ''html'' @ token @ '' '' @ cleaned
      else ''html'' @ token)"

definition transformSelectors :: "options \<Rightarrow> string list \<Rightarrow> string \<Rightarrow> string list" where
  "transformSelectors opts selectors className =
     map (transformSelector (marker_token opts className)) selectors"

section \<open>The rule visitor\<close>

text \<open>
  The two maps of the plugin are JavaScript \<^verbatim>\<open>Map\<close>s: they keep their entries in the order
  of insertion, and setting an existing key replaces its value in place, which is what
  \<^const>\<open>AList.update\<close> does on an association list. \<open>next_ref\<close> is the reference the
  next object created with \<^verbatim>\<open>new Rule\<close> gets.
\<close>

record plugin_state =
  noWebpRules :: "(nat \<times> node) list"
  webpRules :: "(nat \<times> node) list"
  next_ref :: nat

definition init_state :: "nat \<Rightarrow> plugin_state" where
  "init_state n = \<lparr> noWebpRules = [], webpRules = [], next_ref = n \<rparr>"

text \<open>
  The host engine splits a string with \<^verbatim>\<open>list.split(string, separators, last)\<close>. It reads
  the string letter by letter and keeps three flags: the depth of the open parentheses
  (\<open>func\<close>), the quote that is open, if any, and whether the last letter was a backslash
  that escapes the next one. A separator splits only outside quotes and parentheses and
  when it is not escaped. The first function is the chain of tests the loop makes for
  one letter; it gives the flags after the letter and whether the letter splits.
\<close>

definition is_space :: "char \<Rightarrow> bool" where
  "is_space c = ((of_char c :: nat) \<in> {9, 10, 11, 12, 13, 32, 160})"

text \<open>\<^verbatim>\<open>s.trim()\<close>.\<close>

definition trim :: "string \<Rightarrow> string" where
  "trim s = rev (dropWhile is_space (rev (dropWhile is_space s)))"

type_synonym scan_state = "nat \<times> char option \<times> bool"

fun scan_letter :: "string \<Rightarrow> scan_state \<Rightarrow> char \<Rightarrow> scan_state \<times> bool" where
  "scan_letter separators (func, quote, escape) letter =
     (if escape then ((func, quote, False), False)
      else if letter = CHR 0x5C then ((func, quote, True), False)
      else if quote \<noteq> None then
        ((func, if Some letter = quote then None else quote, False), False)
      else if letter = CHR 0x22 \<or> letter = CHR 0x27 then ((func, Some letter, False), False)
      else if letter = CHR ''('' then ((func + 1, None, False), False)
      else if letter = CHR '')'' then ((func - 1, None, False), False)
      else ((func, None, False), func = 0 \<and> letter \<in> set separators))"

text \<open>
  The loop: at a split the text collected so far is pushed, trimmed, unless it is empty;
  a letter that does not split is collected. After the last letter the rest is pushed
  when it is not empty or when \<open>final\<close> (the parameter \<^verbatim>\<open>last\<close>) is set.
\<close>

fun split_loop :: "string \<Rightarrow> bool \<Rightarrow> scan_state \<Rightarrow> string \<Rightarrow> string \<Rightarrow> string list" where
  "split_loop separators final st current [] =
     (if final \<or> current \<noteq> [] then [trim current] else [])"
| "split_loop separators final st current (letter # letters) =
     (let (st1, split) = scan_letter separators st letter in
      if split then
        (if current \<noteq> [] then [trim current] else [])
          @ split_loop separators final st1 [] letters
      else split_loop separators final st1 (current @ [letter]) letters)"

definition list_split :: "string \<Rightarrow> string \<Rightarrow> bool \<Rightarrow> string list" where
  "list_split s separators final = split_loop separators final (0, None, False) [] s"

text \<open>\<^verbatim>\<open>list.comma(string)\<close> is \<^verbatim>\<open>list.split(string, [','], true)\<close>.\<close>

definition comma :: "string \<Rightarrow> string list" where
  "comma s = list_split s '','' True"

text \<open>
  The \<^verbatim>\<open>selector\<close> and \<^verbatim>\<open>selectors\<close> accessors of a rule. Reading \<^verbatim>\<open>rule.selectors\<close> gives
  \<^verbatim>\<open>list.comma(rule.selector)\<close>. Setting it stores the list joined with a separator: the
  first match of \<^verbatim>\<open>/,\s*/\<close> in the current selector string, or a comma and a space when
  there is none (a rule made with \<^verbatim>\<open>new Rule\<close> has no selector string yet).
\<close>

fun comma_sep :: "string \<Rightarrow> string option" where
  "comma_sep [] = None"
| "comma_sep (c # cs) =
     (if c = CHR '','' then Some (c # takeWhile is_space cs) else comma_sep cs)"

fun get_selector :: "node \<Rightarrow> string" where
  "get_selector (Rule j sel kids) = sel"
| "get_selector n = []"

fun get_selectors :: "node \<Rightarrow> string list" where
  "get_selectors (Rule j sel kids) = comma sel"
| "get_selectors n = []"

fun set_selectors :: "node \<Rightarrow> string list \<Rightarrow> node" where
  "set_selectors (Rule j sel kids) values =
     Rule j (join (case comma_sep sel of Some m \<Rightarrow> m | None \<Rightarrow> '', '') values) kids"
| "set_selectors n values = n"

text \<open>
  \<^verbatim>\<open>new Rule({ selectors: ..., nodes: ... })\<close>: a rule without a selector string yet, whose
  selector list is set and whose children are declarations made of the property name
  and the value alone.
\<close>

definition new_decl :: "string \<Rightarrow> string \<Rightarrow> decl" where
  "new_decl p v = \<lparr> decl_prop = p, decl_value = v, decl_important = False \<rparr>"

definition new_Rule :: "nat \<Rightarrow> string list \<Rightarrow> decl list \<Rightarrow> node" where
  "new_Rule ref selectors nodes = set_selectors (Rule ref [] (map Decl nodes)) selectors"

text \<open>
  The \<^verbatim>\<open>Rule\<close> visitor. \<^verbatim>\<open>walkDecls\<close> visits every declaration below the rule in document
  order; a declaration that satisfies the predicate is pushed on both lists and removed.
\<close>

fun visit_Rule :: "options \<Rightarrow> node \<Rightarrow> plugin_state \<Rightarrow> node \<times> plugin_state" where
  "visit_Rule opts (Rule j sel kids) st =
     (if str_includes sel (''.'' @ noWebpClass opts) then (Rule j sel kids, st)
      else
        let matched = filter (predicate opts) (decls_of kids);
            noWebpDeclarations = map (\<lambda>d. new_decl (decl_prop d) (decl_value d)) matched;
            webpDeclarations = map (\<lambda>d. new_decl (decl_prop d) (rename opts d)) matched;
            rule = Rule j sel (remove_decls (predicate opts) kids);
            st1 =
              (if length noWebpDeclarations > 0 then
                 let noWebpRule0 =
                       new_Rule (next_ref st)
                         (transformSelectors opts (get_selectors rule) (noWebpClass opts))
                         noWebpDeclarations;
                     noWebpRule =
                       (if addNoJs opts then
                          set_selectors noWebpRule0
                            (get_selectors noWebpRule0
                               @ transformSelectors opts (get_selectors rule) (noJsClass opts))
                        else noWebpRule0)
                 in st\<lparr> noWebpRules := AList.update j noWebpRule (noWebpRules st),
                        next_ref := Suc (next_ref st) \<rparr>
               else st);
            st2 =
              (if length webpDeclarations > 0 then
                 let webpRule =
                       new_Rule (next_ref st1)
                         (transformSelectors opts (get_selectors rule) (webpClass opts))
                         webpDeclarations
                 in st1\<lparr> webpRules := AList.update j webpRule (webpRules st1),
                         next_ref := Suc (next_ref st1) \<rparr>
               else st1)
        in (rule, st2))"
| "visit_Rule opts n st = (n, st)"

section \<open>The walk of the host engine and the OnceExit hook\<close>

fun nodes_of :: "node \<Rightarrow> node list" where
  "nodes_of (Rule j sel kids) = kids"
| "nodes_of (AtRule name params kids) = kids"
| "nodes_of n = []"

fun with_nodes :: "node \<Rightarrow> node list \<Rightarrow> node" where
  "with_nodes (Rule j sel kids) ns = Rule j sel ns"
| "with_nodes (AtRule name params kids) ns = AtRule name params ns"
| "with_nodes n ns = n"

declare visit_Rule.simps [simp del]

lemma size_remove_decls: "size_list size (remove_decls p ns) \<le> size_list size ns"
  by (induction p ns rule: remove_decls.induct) auto

lemma size_visit_Rule:
  "(rule, st1) = visit_Rule opts (Rule j sel kids) st
     \<Longrightarrow> size_list size (nodes_of rule) \<le> size_list size kids"
  by (auto simp: visit_Rule.simps Let_def size_remove_decls split: if_splits)

text \<open>
  The engine visits the nodes depth first in document order and calls the rule visitor
  on a rule before it visits the children of the rule. It visits a rule again when a
  visitor has changed it; the rule visitor changes nothing on a second visit, since none
  of the declarations it left satisfies the predicate, so the model visits each rule
  once. Nodes that \<^verbatim>\<open>OnceExit\<close> inserts are not visited in the same run.
\<close>

function walk :: "options \<Rightarrow> node list \<Rightarrow> plugin_state \<Rightarrow> node list \<times> plugin_state" where
  "walk opts [] st = ([], st)"
| "walk opts (Decl d # ns) st =
     (let (ns', st1) = walk opts ns st in (Decl d # ns', st1))"
| "walk opts (Comment t # ns) st =
     (let (ns', st1) = walk opts ns st in (Comment t # ns', st1))"
| "walk opts (AtRule name params kids # ns) st =
     (let (kids', st1) = walk opts kids st;
          (ns', st2) = walk opts ns st1
      in (AtRule name params kids' # ns', st2))"
| "walk opts (Rule j sel kids # ns) st =
     (let (rule, st1) = visit_Rule opts (Rule j sel kids) st;
          (kids', st2) = walk opts (nodes_of rule) st1;
          (ns', st3) = walk opts ns st2
      in (with_nodes rule kids' # ns', st3))"
  by pat_completeness auto
termination
proof (relation "measure (\<lambda>(opts, ns, st). size_list size ns)", goal_cases)
  case (6 opts j sel kids ns st x xa y)
  then show ?case
    using size_visit_Rule [of xa y opts j sel kids st] by simp
qed auto

text \<open>
  \<^verbatim>\<open>rule.after(node)\<close>: \<open>node\<close> becomes the next sibling of the rule with the reference
  \<open>ref\<close>, wherever that rule is in the tree. A reference stands for one object, so the
  claims about whole trees assume that the references of the rules are distinct.
\<close>

fun after :: "nat \<Rightarrow> node \<Rightarrow> node list \<Rightarrow> node list" where
  "after ref new [] = []"
| "after ref new (Decl d # ns) = Decl d # after ref new ns"
| "after ref new (Comment t # ns) = Comment t # after ref new ns"
| "after ref new (AtRule name params kids # ns) =
     AtRule name params (after ref new kids) # after ref new ns"
| "after ref new (Rule j sel kids # ns) =
     (if j = ref then Rule j sel kids # new # ns
      else Rule j sel (after ref new kids) # after ref new ns)"

text \<open>The two loops of \<^verbatim>\<open>OnceExit\<close>, each over a map in its order of insertion.\<close>

definition OnceExit :: "plugin_state \<Rightarrow> node list \<Rightarrow> node list" where
  "OnceExit st root =
     foldl (\<lambda>r (rule, webpRule). after rule webpRule r)
       (foldl (\<lambda>r (rule, noWebpRule). after rule noWebpRule r) root (noWebpRules st))
       (webpRules st)"

text \<open>
  One run of the plugin over a root: the walk with fresh maps, then \<^verbatim>\<open>OnceExit\<close>. \<open>n\<close> is
  the first reference that no object has yet; the second component of the result is the
  next free reference after the run.
\<close>

definition process :: "options \<Rightarrow> node list \<Rightarrow> nat \<Rightarrow> node list \<times> nat" where
  "process opts root n =
     (let (root', st) = walk opts root (init_state n) in (OnceExit st root', next_ref st))"

section \<open>Notions for stating and proving the claims\<close>

text \<open>
  None of the following is part of the plugin: these are the notions the claims are
  stated with, the invariants of the proofs, and the examples of the witnesses.
\<close>


text \<open>
  The number of positions at which a text occurs in a string.
\<close>

fun occurrences :: "string \<Rightarrow> string \<Rightarrow> nat" where
  "occurrences [] p = (if p = [] then 1 else 0)"
| "occurrences (c # cs) p = (if starts_with (c # cs) p then 1 else 0) + occurrences cs p"

text \<open>
  The tails of a string, the string itself first.
\<close>

fun tails :: "string \<Rightarrow> string list" where
  "tails [] = [[]]"
| "tails (x # xs) = (x # xs) # tails xs"

text \<open>
  What can be left of a token behind its first character or later: the proper tails of
  the tokens.
\<close>

definition token_tails :: "string list \<Rightarrow> string set" where
  "token_tails toks = (\<Union>t \<in> set toks. set (tails (tl t)))"

text \<open>
  No match that starts in front of \<open>x\<close> can reach into \<open>x\<close>: no proper tail of a token
  starts \<open>x\<close>.
\<close>

definition no_straddle :: "string list \<Rightarrow> string \<Rightarrow> bool" where
  "no_straddle A x = (\<forall>p \<in> token_tails A. p \<noteq> [] \<longrightarrow> \<not> ci_prefix p x)"

text \<open>
  A string is an occurrence of a token list when it is one of the tokens up to the case
  of its letters.
\<close>

definition is_occurrence :: "string list \<Rightarrow> string \<Rightarrow> bool" where
  "is_occurrence toks m = (\<exists>tok \<in> set toks. length m = length tok \<and> ci_prefix tok m)"

text \<open>
  No token starts another one, ignoring case.
\<close>

definition prefix_free :: "string list \<Rightarrow> bool" where
  "prefix_free A = (\<forall>t \<in> set A. \<forall>t' \<in> set A. ci_prefix t t' \<or> ci_prefix t' t \<longrightarrow> t = t')"

text \<open>
  The default rename function reads the value of the declaration only.
\<close>

definition rename_value :: "string \<Rightarrow> string" where
  "rename_value v = default_rename \<lparr> decl_prop = [], decl_value = v, decl_important = False \<rparr>"

text \<open>
  An optional node as a list of siblings.
\<close>

fun opt_list :: "'a option \<Rightarrow> 'a list" where
  "opt_list None = []"
| "opt_list (Some x) = [x]"

text \<open>
  \<open>expand w nw\<close> puts behind every rule the capable variant that \<open>w\<close> has for its
  reference and then the fallback variant that \<open>nw\<close> has for it.
\<close>

fun expand :: "(nat \<Rightarrow> node option) \<Rightarrow> (nat \<Rightarrow> node option) \<Rightarrow> node list \<Rightarrow> node list" where
  "expand w nw [] = []"
| "expand w nw (Decl d # ns) = Decl d # expand w nw ns"
| "expand w nw (Comment t # ns) = Comment t # expand w nw ns"
| "expand w nw (AtRule name params kids # ns) =
     AtRule name params (expand w nw kids) # expand w nw ns"
| "expand w nw (Rule j sel kids # ns) =
     Rule j sel (expand w nw kids) # opt_list (w j) @ opt_list (nw j) @ expand w nw ns"

text \<open>
  No variant of the map carries the reference \<open>ref\<close>, itself or below it.
\<close>

definition clear_of :: "nat \<Rightarrow> (nat \<Rightarrow> node option) \<Rightarrow> bool" where
  "clear_of ref m = (\<forall>i v. m i = Some v \<longrightarrow> ref \<notin> set (refs_of [v]))"

text \<open>
  The references of the variant rules in the two maps.
\<close>

definition variant_refs :: "plugin_state \<Rightarrow> nat set" where
  "variant_refs st =
     (\<Union>v \<in> snd ` set (noWebpRules st) \<union> snd ` set (webpRules st). set (refs_of [v]))"

text \<open>
  The keys of the two maps.
\<close>

definition state_keys :: "plugin_state \<Rightarrow> nat set" where
  "state_keys st = fst ` set (noWebpRules st) \<union> fst ` set (webpRules st)"

text \<open>
  The guard of the visitor: the selector string contains the dot and the fallback class
  name.
\<close>

definition skipped :: "options \<Rightarrow> string \<Rightarrow> bool" where
  "skipped opts sel = str_includes sel (''.'' @ noWebpClass opts)"

text \<open>
  The declarations below a list of nodes that satisfy the predicate.
\<close>

definition matched_decls :: "options \<Rightarrow> node list \<Rightarrow> decl list" where
  "matched_decls opts kids = filter (predicate opts) (decls_of kids)"

text \<open>
  The fallback rule the visitor builds from the matched declarations, with the
  reference \<open>ref\<close>.
\<close>

definition fallback_rule :: "options \<Rightarrow> nat \<Rightarrow> string list \<Rightarrow> decl list \<Rightarrow> node" where
  "fallback_rule opts ref sels matched =
     (let r0 = new_Rule ref (transformSelectors opts sels (noWebpClass opts))
                 (map (\<lambda>d. new_decl (decl_prop d) (decl_value d)) matched)
      in if addNoJs opts
         then set_selectors r0 (get_selectors r0 @ transformSelectors opts sels (noJsClass opts))
         else r0)"

text \<open>
  The capable rule the visitor builds from the matched declarations, with the reference
  \<open>ref\<close>.
\<close>

definition capable_rule :: "options \<Rightarrow> nat \<Rightarrow> string list \<Rightarrow> decl list \<Rightarrow> node" where
  "capable_rule opts ref sels matched =
     new_Rule ref (transformSelectors opts sels (webpClass opts))
       (map (\<lambda>d. new_decl (decl_prop d) (rename opts d)) matched)"

text \<open>
  The state after the visitor has recorded both variants for the rule \<open>j\<close>.
\<close>

definition record_variants :: "options \<Rightarrow> nat \<Rightarrow> string list \<Rightarrow> decl list \<Rightarrow> plugin_state \<Rightarrow> plugin_state" where
  "record_variants opts j sels matched st =
     st\<lparr> noWebpRules := AList.update j (fallback_rule opts (next_ref st) sels matched) (noWebpRules st),
         webpRules := AList.update j (capable_rule opts (Suc (next_ref st)) sels matched) (webpRules st),
         next_ref := Suc (Suc (next_ref st)) \<rparr>"

text \<open>
  The sibling list from the rule with the reference \<open>ref\<close> on: the rule itself and the
  nodes behind it in its parent, for the first such rule in document order.
\<close>

fun siblings_from :: "nat \<Rightarrow> node list \<Rightarrow> node list option" where
  "siblings_from ref [] = None"
| "siblings_from ref (Decl d # ns) = siblings_from ref ns"
| "siblings_from ref (Comment t # ns) = siblings_from ref ns"
| "siblings_from ref (AtRule name params kids # ns) =
     (case siblings_from ref kids of Some r \<Rightarrow> Some r | None \<Rightarrow> siblings_from ref ns)"
| "siblings_from ref (Rule j sel kids # ns) =
     (if j = ref then Some (Rule j sel kids # ns)
      else case siblings_from ref kids of Some r \<Rightarrow> Some r | None \<Rightarrow> siblings_from ref ns)"

text \<open>
  The keys of each map are distinct, and every variant has a reference from \<open>n\<close> on.
\<close>

definition state_ok :: "nat \<Rightarrow> plugin_state \<Rightarrow> bool" where
  "state_ok n st \<longleftrightarrow>
     distinct (map fst (noWebpRules st)) \<and> distinct (map fst (webpRules st))
     \<and> n \<le> next_ref st \<and> (\<forall>r \<in> variant_refs st. n \<le> r)"

text \<open>
  A tree is settled when every rule in it is skipped or has no declaration below it that
  satisfies the predicate: the visitor changes nothing in such a tree.
\<close>

fun settled :: "options \<Rightarrow> node list \<Rightarrow> bool" where
  "settled opts [] = True"
| "settled opts (Decl d # ns) = settled opts ns"
| "settled opts (Comment t # ns) = settled opts ns"
| "settled opts (AtRule name params kids # ns) = (settled opts kids \<and> settled opts ns)"
| "settled opts (Rule j sel kids # ns) =
     ((skipped opts sel \<or> matched_decls opts kids = []) \<and> settled opts kids \<and> settled opts ns)"

text \<open>
  A tree is guarded for a set of keys when no rule below a rule that is not skipped has
  a key.
\<close>

fun guarded :: "options \<Rightarrow> nat set \<Rightarrow> node list \<Rightarrow> bool" where
  "guarded opts K [] = True"
| "guarded opts K (Decl d # ns) = guarded opts K ns"
| "guarded opts K (Comment t # ns) = guarded opts K ns"
| "guarded opts K (AtRule name params kids # ns) = (guarded opts K kids \<and> guarded opts K ns)"
| "guarded opts K (Rule j sel kids # ns) =
     ((skipped opts sel \<or> set (refs_of kids) \<inter> K = {})
      \<and> guarded opts K kids \<and> guarded opts K ns)"

text \<open>
  The options use the default predicate and rename function, and the fallback class name
  contains no dollar sign.
\<close>

definition default_renaming :: "options \<Rightarrow> bool" where
  "default_renaming opts \<longleftrightarrow>
     predicate opts = default_predicate \<and> rename opts = default_rename
     \<and> CHR ''$'' \<notin> set (noWebpClass opts)"

text \<open>
  With the no-script selectors the fallback selectors are read back before they are
  stored. The fallback marker is still in what is read back when the fallback class name
  has no comma, at which the selectors would be split again, and does not end in white
  space, which the accessor would trim away.
\<close>

definition marker_kept :: "options \<Rightarrow> bool" where
  "marker_kept opts \<longleftrightarrow>
     (addNoJs opts \<longrightarrow>
        CHR '','' \<notin> set (noWebpClass opts) \<and> \<not> is_space (last (''.'' @ noWebpClass opts)))"

text \<open>
  The flags of the scan after a whole string, when none of its letters splits.
\<close>

fun scan_string :: "string \<Rightarrow> scan_state \<Rightarrow> string \<Rightarrow> scan_state option" where
  "scan_string separators st [] = Some st"
| "scan_string separators st (letter # letters) =
     (let (st1, split) = scan_letter separators st letter in
      if split then None else scan_string separators st1 letters)"

text \<open>
  A selector is closed when the accessor reads it back as it is, also with other
  selectors behind it: it is not empty, has no white space at either end, no comma
  outside quotes and parentheses, and no quote, parenthesis or escape left open at its
  end.
\<close>

definition closed_selector :: "string \<Rightarrow> bool" where
  "closed_selector x \<longleftrightarrow>
     x \<noteq> [] \<and> \<not> is_space (hd x) \<and> \<not> is_space (last x)
     \<and> scan_string '','' (0, None, False) x = Some (0, None, False)"

text \<open>
  Every variant in the two maps is settled.
\<close>

definition variants_settled :: "options \<Rightarrow> plugin_state \<Rightarrow> bool" where
  "variants_settled opts st \<longleftrightarrow>
     (\<forall>v \<in> snd ` set (noWebpRules st) \<union> snd ` set (webpRules st). settled opts [v])"

text \<open>
  The rule with the reference \<open>ref\<close> is in the tree and is not skipped.
\<close>

definition found_unskipped :: "options \<Rightarrow> nat \<Rightarrow> node list \<Rightarrow> bool" where
  "found_unskipped opts ref t \<longleftrightarrow>
     (\<exists>sel kids rest. siblings_from ref t = Some (Rule ref sel kids # rest)
        \<and> \<not> skipped opts sel)"

subsection \<open>Examples\<close>

text \<open>
  The rule \<^verbatim>\<open>section { position: relative; /* note */ color: red }\<close>.
\<close>

definition relative_rule :: node where
  "relative_rule = Rule 0 ''section''
     [Decl \<lparr>decl_prop = ''position'', decl_value = ''relative'', decl_important = False\<rparr>,
      Comment ''note'',
      Decl \<lparr>decl_prop = ''color'', decl_value = ''red'', decl_important = False\<rparr>]"

text \<open>
  The rule \<^verbatim>\<open>main, section { background: url(./image.jpg) }\<close>.
\<close>

definition main_rule :: node where
  "main_rule = Rule 0 ''main, section''
     [Decl \<lparr>decl_prop = ''background'', decl_value = ''url(./image.jpg)'', decl_important = False\<rparr>]"

text \<open>
  The rule \<^verbatim>\<open>:root html { background: url(./image.jpg) }\<close>.
\<close>

definition root_html_rule :: node where
  "root_html_rule = Rule 0 '':root html''
     [Decl \<lparr>decl_prop = ''background'', decl_value = ''url(./image.jpg)'', decl_important = False\<rparr>]"

text \<open>
  The rule \<^verbatim>\<open>.no-webp-banner { background: url(./image.png) }\<close>.
\<close>

definition banner_rule :: node where
  "banner_rule = Rule 0 ''.no-webp-banner''
     [Decl \<lparr>decl_prop = ''background'', decl_value = ''url(./image.png)'', decl_important = False\<rparr>]"

text \<open>
  The rule \<^verbatim>\<open>section { background: url(./image.png); color: red; }\<close> and the three
  rules the plugin makes of it.
\<close>

definition section_rule :: node where
  "section_rule = Rule 0 ''section''
     [Decl \<lparr>decl_prop = ''background'', decl_value = ''url(./image.png)'', decl_important = False\<rparr>,
      Decl \<lparr>decl_prop = ''color'', decl_value = ''red'', decl_important = False\<rparr>]"

definition section_stripped :: node where
  "section_stripped = Rule 0 ''section''
     [Decl \<lparr>decl_prop = ''color'', decl_value = ''red'', decl_important = False\<rparr>]"

definition section_webp :: node where
  "section_webp = Rule 2 ''html.webp section''
     [Decl \<lparr>decl_prop = ''background'', decl_value = ''url(./image.webp)'', decl_important = False\<rparr>]"

definition section_no_webp :: node where
  "section_no_webp = Rule 1 ''html.no-webp section''
     [Decl \<lparr>decl_prop = ''background'', decl_value = ''url(./image.png)'', decl_important = False\<rparr>]"

text \<open>
  Options with the no-script selectors and a fallback class name that has commas, and the
  rule \<^verbatim>\<open>x { background: url(./image.png) }\<close> with the three rules the plugin makes of
  it under these options.
\<close>

definition lossy_options :: options where
  "lossy_options = default_options\<lparr>addNoJs := True, noWebpClass := ''a,b, c''\<rparr>"

definition x_rule :: node where
  "x_rule = Rule 0 ''x''
     [Decl \<lparr>decl_prop = ''background'', decl_value = ''url(./image.png)'', decl_important = False\<rparr>]"

definition x_result :: "node list" where
  "x_result =
     [Rule 0 ''x'' [],
      Rule 2 ''html.webp x''
        [Decl \<lparr>decl_prop = ''background'', decl_value = ''url(./image.webp)'', decl_important = False\<rparr>],
      Rule 1 ''html.a,b,c x,html.no-js x''
        [Decl \<lparr>decl_prop = ''background'', decl_value = ''url(./image.png)'', decl_important = False\<rparr>]]"

text \<open>
  A declaration of the property \<^verbatim>\<open>background\<close>.
\<close>

definition jpg_decl :: decl where
  "jpg_decl = \<lparr> decl_prop = ''background'', decl_value = [], decl_important = False \<rparr>"

text \<open>
  The state of the plugin after the walk over the rule above.
\<close>

definition section_state :: plugin_state where
  "section_state =
     \<lparr> noWebpRules = [(0, section_no_webp)], webpRules = [(0, section_webp)], next_ref = 3 \<rparr>"

section \<open>Facts about the string primitives\<close>

lemma starts_with_iff: "starts_with s p \<longleftrightarrow> (\<exists>r. s = p @ r)"
  by (induction s p rule: starts_with.induct) auto

lemma starts_with_take: "starts_with s p \<longleftrightarrow> take (length p) s = p \<and> length p \<le> length s"
  by (induction s p rule: starts_with.induct) auto

lemma index_of_split:
  "index_of s p = Some i \<Longrightarrow> s = take i s @ p @ drop (i + length p) s"
proof (induction s arbitrary: i)
  case Nil
  then show ?case by (simp split: if_splits)
next
  case (Cons c cs)
  show ?case
  proof (cases "starts_with (c # cs) p")
    case True
    then obtain r where "c # cs = p @ r" by (auto simp: starts_with_iff)
    moreover from True Cons.prems have "i = 0" by simp
    ultimately show ?thesis by simp
  next
    case False
    with Cons.prems obtain k where k: "index_of cs p = Some k" "i = Suc k" by auto
    from Cons.IH [OF k(1)] k(2) show ?thesis by simp
  qed
qed

lemma index_of_le: "index_of s p = Some i \<Longrightarrow> i + length p \<le> length s"
proof (induction s arbitrary: i)
  case Nil
  then show ?case by (simp split: if_splits)
next
  case (Cons c cs)
  then show ?case by (auto simp: starts_with_take split: if_splits)
qed

lemma index_of_starts: "starts_with s p \<Longrightarrow> index_of s p = Some 0"
  by (cases s) (auto simp: starts_with_iff)

lemma index_of_append: "index_of (a @ p @ b) p \<noteq> None"
proof (induction a)
  case Nil
  then show ?case by (simp add: index_of_starts starts_with_iff)
next
  case (Cons c a)
  then show ?case by auto
qed

lemma str_includes_iff: "str_includes s p \<longleftrightarrow> (\<exists>a b. s = a @ p @ b)"
  unfolding str_includes_def
  by (metis index_of_append index_of_split not_None_eq)

lemma get_substitution_plain:
  "CHR ''$'' \<notin> set r \<Longrightarrow> get_substitution m a b r = r"
  by (induction m a b r rule: get_substitution.induct) auto


lemma str_replace_plain:
  "CHR ''$'' \<notin> set r \<Longrightarrow> index_of s p = Some i \<Longrightarrow>
     str_replace s p r = take i s @ r @ drop (i + length p) s"
  by (simp add: str_replace_def get_substitution_plain)

lemma str_includes_mid: "str_includes (a @ p @ b) p"
  by (auto simp: str_includes_iff)

lemma str_includes_trans: "str_includes s q \<Longrightarrow> str_includes q p \<Longrightarrow> str_includes s p"
  unfolding str_includes_iff
  by (metis append.assoc)

lemma dollar_marker_token:
  "CHR ''$'' \<notin> set className \<Longrightarrow> CHR ''$'' \<notin> set (marker_token opts className)"
  by (simp add: marker_token_def)

lemma transformSelector_includes:
  assumes "CHR ''$'' \<notin> set token"
  shows "str_includes (transformSelector token selector) (''html'' @ token)"
proof -
  let ?c = "strip_selector token selector"
  show ?thesis
  proof (cases "str_includes ?c ''html''")
    case True
    then obtain i where i: "index_of ?c ''html'' = Some i"
      by (auto simp: str_includes_def)
    from assms have "CHR ''$'' \<notin> set (''html'' @ token)" by simp
    from str_replace_plain [OF this i] True
    have "transformSelector token selector
            = take i ?c @ (''html'' @ token) @ drop (i + length ''html'') ?c"
      by (simp add: transformSelector_def Let_def)
    then show ?thesis by (simp only: str_includes_mid)
  next
    case False
    have a: "str_includes ([] @ (''html'' @ token) @ b) (''html'' @ token)" for b
      by (rule str_includes_mid)
    from False show ?thesis
      using a [of "'' '' @ ?c"] a [of "[]"]
      by (simp add: transformSelector_def Let_def)
  qed
qed

lemma index_of_first:
  "index_of s p = Some i \<Longrightarrow> k < i \<Longrightarrow> \<not> starts_with (drop k s) p"
proof (induction s arbitrary: i k)
  case Nil
  then show ?case by (simp split: if_splits)
next
  case (Cons c cs)
  from Cons.prems have ns: "\<not> starts_with (c # cs) p" by (auto split: if_splits)
  with Cons.prems obtain j where j: "index_of cs p = Some j" "i = Suc j" by auto
  show ?case
  proof (cases k)
    case 0
    with ns show ?thesis by simp
  next
    case (Suc k')
    with Cons.prems j have "k' < j" by simp
    from Cons.IH [OF j(1) this] Suc show ?thesis by simp
  qed
qed

section \<open>Counting the marker token\<close>

lemma occurrences_none: "\<not> str_includes s p \<Longrightarrow> occurrences s p = 0"
  by (induction s) (auto simp: str_includes_def split: if_splits)

lemma occurrences_skip:
  "t = c # name \<Longrightarrow> c \<notin> set a \<Longrightarrow> occurrences (a @ b) t = occurrences b t"
  by (induction a) auto

lemma occurrences_token:
  "t = c # name \<Longrightarrow> c \<notin> set name \<Longrightarrow> occurrences (t @ b) t = 1 + occurrences b t"
  using occurrences_skip [of t c name name b] by (simp add: starts_with_iff)

lemma occurrences_front:
  "(\<And>k. k < length u \<Longrightarrow> \<not> starts_with (drop k u @ w) p)
     \<Longrightarrow> occurrences (u @ w) p = occurrences w p"
proof (induction u)
  case Nil
  then show ?case by simp
next
  case (Cons x u)
  from Cons.prems [of 0] have "\<not> starts_with (x # u @ w) p" by simp
  moreover have "\<not> starts_with (drop k u @ w) p" if "k < length u" for k
    using Cons.prems [of "Suc k"] that by simp
  ultimately show ?case using Cons.IH by simp
qed

lemma no_straddle_token:
  assumes "t = c # name" and "c \<notin> set name" and "\<not> str_includes (u @ post) t"
    and "k < length u"
  shows "\<not> starts_with (drop k u @ t @ post) t"
proof
  assume "starts_with (drop k u @ t @ post) t"
  then have "\<exists>r. drop k u @ t @ post = t @ r" by (simp only: starts_with_iff)
  then obtain r where r: "drop k u @ t @ post = t @ r" ..
  from assms(4) obtain d ds where d: "drop k u = d # ds" by (cases "drop k u") auto
  have u: "u = take k u @ drop k u" by simp
  from r have "\<exists>w. drop k u = t @ w \<and> w @ t @ post = r \<or> drop k u @ w = t \<and> t @ post = w @ r"
    by (simp only: append_eq_append_conv2)
  then consider w where "drop k u = t @ w" | w where "drop k u @ w = t" "t @ post = w @ r"
    by blast
  then show False
  proof cases
    case 1
    with u have "u @ post = take k u @ t @ (w @ post)" by (metis append.assoc)
    then have "str_includes (u @ post) t" by (simp only: str_includes_mid)
    with assms(3) show False by simp
  next
    case 2
    show False
    proof (cases w)
      case Nil
      with 2 u have "u @ post = take k u @ t @ post" by (metis append.assoc append_Nil2)
      then have "str_includes (u @ post) t" by (simp only: str_includes_mid)
      with assms(3) show False by simp
    next
      case (Cons x xs)
      with 2(2) assms(1) have "x = c" by simp
      moreover from 2(1) d Cons assms(1) have "x \<in> set name" by auto
      ultimately show False using assms(2) by simp
    qed
  qed
qed

lemma transformSelector_once:
  assumes "token = c # name" and "c \<notin> set name" and "c \<notin> set ''html ''"
    and "CHR ''$'' \<notin> set token"
    and "\<not> str_includes (strip_selector token selector) token"
  shows "occurrences (transformSelector token selector) token = 1"
proof -
  let ?c = "strip_selector token selector"
  from assms(5) have z: "occurrences ?c token = 0" by (rule occurrences_none)
  show ?thesis
  proof (cases "str_includes ?c ''html''")
    case True
    then obtain i where i: "index_of ?c ''html'' = Some i"
      by (auto simp: str_includes_def)
    let ?pre = "take i ?c" and ?post = "drop (i + length ''html'') ?c"
    from index_of_split [OF i] have c: "?c = (?pre @ ''html'') @ ?post" by simp
    from assms(4) have "CHR ''$'' \<notin> set (''html'' @ token)" by simp
    from str_replace_plain [OF this i] True
    have t: "transformSelector token selector = (?pre @ ''html'') @ token @ ?post"
      by (simp add: transformSelector_def Let_def)
    from assms(5) c have n: "\<not> str_includes ((?pre @ ''html'') @ ?post) token"
      by simp
    have "\<not> str_includes ?post token"
    proof
      assume "str_includes ?post token"
      then obtain a b where "?post = a @ token @ b" by (auto simp: str_includes_iff)
      with c have "?c = (?pre @ ''html'' @ a) @ token @ b" by simp
      then have "str_includes ?c token" using str_includes_mid by metis
      with assms(5) show False by simp
    qed
    then have p: "occurrences ?post token = 0" by (rule occurrences_none)
    have "occurrences ((?pre @ ''html'') @ token @ ?post) token
            = occurrences (token @ ?post) token"
      by (rule occurrences_front) (rule no_straddle_token [OF assms(1,2) n])
    also have "\<dots> = 1 + occurrences ?post token"
      by (rule occurrences_token [OF assms(1,2)])
    finally show ?thesis using t p by (simp only:)
  next
    case False
    let ?r = "if ?c \<noteq> [] then '' '' @ ?c else []"
    from False have e: "transformSelector token selector = ''html'' @ token @ ?r"
      by (simp add: transformSelector_def Let_def)
    have "occurrences (''html'' @ token @ ?r) token = occurrences (token @ ?r) token"
      by (rule occurrences_skip [OF assms(1)]) (use assms(3) in simp)
    also have "\<dots> = 1 + occurrences ?r token"
      by (rule occurrences_token [OF assms(1,2)])
    also have "occurrences ?r token = 0"
    proof (cases "?c = []")
      case True
      with assms(1) show ?thesis by simp
    next
      case False
      have "occurrences ('' '' @ ?c) token = occurrences ?c token"
        by (rule occurrences_skip [OF assms(1)]) (use assms(3) in simp)
      with z False show ?thesis by (simp only: if_True not_False_eq_True)
    qed
    finally show ?thesis using e by (simp only:)
  qed
qed

lemma marker_token_split:
  "marker_token opts className
     = (if modules opts then CHR '':'' else CHR ''.'')
         # (if modules opts then ''global(.'' @ className @ '')'' else className)"
  by (simp add: marker_token_def)

section \<open>Evaluating the regular expressions\<close>

lemma to_upper_ascii_cases:
  "to_upper_ascii c =
   (if c = CHR ''a'' then CHR ''A'' else if c = CHR ''b'' then CHR ''B''
    else if c = CHR ''c'' then CHR ''C'' else if c = CHR ''d'' then CHR ''D''
    else if c = CHR ''e'' then CHR ''E'' else if c = CHR ''f'' then CHR ''F''
    else if c = CHR ''g'' then CHR ''G'' else if c = CHR ''h'' then CHR ''H''
    else if c = CHR ''i'' then CHR ''I'' else if c = CHR ''j'' then CHR ''J''
    else if c = CHR ''k'' then CHR ''K'' else if c = CHR ''l'' then CHR ''L''
    else if c = CHR ''m'' then CHR ''M'' else if c = CHR ''n'' then CHR ''N''
    else if c = CHR ''o'' then CHR ''O'' else if c = CHR ''p'' then CHR ''P''
    else if c = CHR ''q'' then CHR ''Q'' else if c = CHR ''r'' then CHR ''R''
    else if c = CHR ''s'' then CHR ''S'' else if c = CHR ''t'' then CHR ''T''
    else if c = CHR ''u'' then CHR ''U'' else if c = CHR ''v'' then CHR ''V''
    else if c = CHR ''w'' then CHR ''W'' else if c = CHR ''x'' then CHR ''X''
    else if c = CHR ''y'' then CHR ''Y'' else if c = CHR ''z'' then CHR ''Z''
    else c)"
  by (simp add: to_upper_ascii_def)

lemma ci_char_dot: "ci_char CHR ''.'' c \<longleftrightarrow> c = CHR ''.''"
  unfolding ci_char_def to_upper_ascii_cases by (auto split: if_splits)

lemma ci_char_slash: "ci_char CHR ''/'' c \<longleftrightarrow> c = CHR ''/''"
  unfolding ci_char_def to_upper_ascii_cases by (auto split: if_splits)

lemma ci_char_a: "ci_char CHR ''a'' c \<longleftrightarrow> c = CHR ''a'' \<or> c = CHR ''A''"
  unfolding ci_char_def to_upper_ascii_cases by (auto split: if_splits)

lemma ci_char_e: "ci_char CHR ''e'' c \<longleftrightarrow> c = CHR ''e'' \<or> c = CHR ''E''"
  unfolding ci_char_def to_upper_ascii_cases by (auto split: if_splits)

lemma ci_char_f: "ci_char CHR ''f'' c \<longleftrightarrow> c = CHR ''f'' \<or> c = CHR ''F''"
  unfolding ci_char_def to_upper_ascii_cases by (auto split: if_splits)

lemma ci_char_g: "ci_char CHR ''g'' c \<longleftrightarrow> c = CHR ''g'' \<or> c = CHR ''G''"
  unfolding ci_char_def to_upper_ascii_cases by (auto split: if_splits)

lemma ci_char_i: "ci_char CHR ''i'' c \<longleftrightarrow> c = CHR ''i'' \<or> c = CHR ''I''"
  unfolding ci_char_def to_upper_ascii_cases by (auto split: if_splits)

lemma ci_char_j: "ci_char CHR ''j'' c \<longleftrightarrow> c = CHR ''j'' \<or> c = CHR ''J''"
  unfolding ci_char_def to_upper_ascii_cases by (auto split: if_splits)

lemma ci_char_m: "ci_char CHR ''m'' c \<longleftrightarrow> c = CHR ''m'' \<or> c = CHR ''M''"
  unfolding ci_char_def to_upper_ascii_cases by (auto split: if_splits)

lemma ci_char_n: "ci_char CHR ''n'' c \<longleftrightarrow> c = CHR ''n'' \<or> c = CHR ''N''"
  unfolding ci_char_def to_upper_ascii_cases by (auto split: if_splits)

lemma ci_char_p: "ci_char CHR ''p'' c \<longleftrightarrow> c = CHR ''p'' \<or> c = CHR ''P''"
  unfolding ci_char_def to_upper_ascii_cases by (auto split: if_splits)

lemma ci_char_v: "ci_char CHR ''v'' c \<longleftrightarrow> c = CHR ''v'' \<or> c = CHR ''V''"
  unfolding ci_char_def to_upper_ascii_cases by (auto split: if_splits)

lemmas ci_char_tok =
  ci_char_dot ci_char_slash ci_char_a ci_char_e ci_char_f ci_char_g ci_char_i ci_char_j ci_char_m ci_char_n ci_char_p ci_char_v

lemma re_match_ext:
  "re_match extension_tokens s =
     (if ci_prefix ''.jpeg'' s then Some ''.jpeg'' else if ci_prefix ''.jpg'' s then Some ''.jpg''
      else if ci_prefix ''.png'' s then Some ''.png'' else if ci_prefix ''.gif'' s then Some ''.gif''
      else if ci_prefix ''.avif'' s then Some ''.avif'' else None)"
  by (simp add: re_match_def extension_tokens_def)

lemma re_match_mime:
  "re_match mime_tokens s =
     (if ci_prefix ''image/jpeg'' s then Some ''image/jpeg''
      else if ci_prefix ''image/png'' s then Some ''image/png''
      else if ci_prefix ''image/gif'' s then Some ''image/gif''
      else if ci_prefix ''image/avif'' s then Some ''image/avif'' else None)"
  by (simp add: re_match_def mime_tokens_def)

section \<open>Facts about the selector list accessor\<close>

lemma is_space_simps:
  "is_space c \<longleftrightarrow> c = CHR 0x09 \<or> c = CHR 0x0A \<or> c = CHR 0x0B \<or> c = CHR 0x0C \<or> c = CHR 0x0D
      \<or> c = CHR '' '' \<or> c = CHR 0xA0"
  unfolding is_space_def
  by (cases c) (auto simp: of_char_def)

lemma split_loop_not_Nil: "split_loop seps True st current s \<noteq> []"
  by (induction s arbitrary: st current) (auto simp: Let_def split: prod.splits)

lemma comma_not_Nil: "comma s \<noteq> []"
  by (simp add: comma_def list_split_def split_loop_not_Nil)

lemma dropWhile_keeps:
  assumes "p \<noteq> []" and "\<not> P (hd p)"
  shows "\<exists>a'. dropWhile P (a @ p @ b) = a' @ p @ b"
proof (induction a)
  case Nil
  from assms have "dropWhile P (p @ b) = p @ b" by (cases p) auto
  then show ?case by (metis append_Nil)
next
  case (Cons x a)
  then show ?case by (cases "P x") (auto intro: exI [of _ "x # a"])
qed

lemma trim_includes:
  assumes "str_includes s p" and "p \<noteq> []" and "\<not> is_space (hd p)" and "\<not> is_space (last p)"
  shows "str_includes (trim s) p"
proof -
  from assms(1) obtain a b where s: "s = a @ p @ b" by (auto simp: str_includes_iff)
  from dropWhile_keeps [where P = is_space, OF assms(2,3)] obtain a' where
    a': "dropWhile is_space (a @ p @ b) = a' @ p @ b" by blast
  from assms(2,4) have "rev p \<noteq> []" "\<not> is_space (hd (rev p))" by (simp_all add: hd_rev)
  from dropWhile_keeps [where P = is_space, OF this] obtain b' where
    b': "dropWhile is_space (rev b @ rev p @ rev a') = b' @ rev p @ rev a'" by blast
  from s a' b' have "trim s = a' @ p @ rev b'" by (simp add: trim_def)
  then show ?thesis by (simp only: str_includes_mid)
qed

lemma str_includes_separator:
  assumes "str_includes (a @ c # b) p" and "c \<notin> set p"
  shows "str_includes a p \<or> str_includes b p"
proof -
  from assms(1) obtain u v where e: "a @ c # b = u @ p @ v" by (auto simp: str_includes_iff)
  then consider w where "a = u @ w" "w @ c # b = p @ v" | w where "a @ w = u" "c # b = w @ p @ v"
    by (auto simp: append_eq_append_conv2)
  then show ?thesis
  proof cases
    case 1
    from 1(2) consider w' where "w = p @ w'" | w' where "w @ w' = p" "c # b = w' @ v"
      by (auto simp: append_eq_append_conv2)
    then show ?thesis
    proof cases
      case 1
      with \<open>a = u @ w\<close> show ?thesis by (auto simp: str_includes_iff)
    next
      case 2
      show ?thesis
      proof (cases w')
        case Nil
        with 2 \<open>a = u @ w\<close> have "a = u @ p @ []" by simp
        then have "str_includes a p" by (simp only: str_includes_mid)
        then show ?thesis by simp
      next
        case (Cons x xs)
        with 2 have "c \<in> set p" by auto
        with assms(2) show ?thesis by simp
      qed
    qed
  next
    case 2
    show ?thesis
    proof (cases w)
      case Nil
      with 2 assms(2) show ?thesis by (cases p) (auto simp: str_includes_iff)
    next
      case (Cons x xs)
      with 2 have "b = xs @ p @ v" by simp
      then show ?thesis by (auto simp: str_includes_iff)
    qed
  qed
qed

lemma scan_letter_split:
  "scan_letter seps st letter = (st1, True) \<Longrightarrow> letter \<in> set seps"
  by (cases st) (auto split: if_splits)

lemma split_loop_includes:
  assumes "p \<noteq> []" and "\<not> is_space (hd p)" and "\<not> is_space (last p)"
    and "set p \<inter> set seps = {}"
  shows "str_includes (current @ s) p
     \<Longrightarrow> \<exists>x \<in> set (split_loop seps True st current s). str_includes x p"
proof (induction s arbitrary: st current)
  case Nil
  with trim_includes [OF _ assms(1-3)] show ?case by simp
next
  case (Cons letter letters)
  obtain st1 split where sc: "scan_letter seps st letter = (st1, split)"
    by (cases "scan_letter seps st letter")
  show ?case
  proof (cases split)
    case True
    with sc assms(4) have "letter \<notin> set p" by (auto dest: scan_letter_split)
    from str_includes_separator [OF Cons.prems this]
    show ?thesis
    proof
      assume c: "str_includes current p"
      with assms(1) have "current \<noteq> []" by (auto simp: str_includes_iff)
      with True sc trim_includes [OF c assms(1-3)] show ?thesis by simp
    next
      assume "str_includes letters p"
      with Cons.IH [of "[]" st1] have
        "\<exists>x \<in> set (split_loop seps True st1 [] letters). str_includes x p" by simp
      with True sc show ?thesis by auto
    qed
  next
    case False
    with sc Cons.IH [of "current @ [letter]" st1] Cons.prems show ?thesis by simp
  qed
qed

lemma comma_includes:
  assumes "str_includes s p" and "p \<noteq> []" and "\<not> is_space (hd p)" and "\<not> is_space (last p)"
    and "CHR '','' \<notin> set p"
  shows "\<exists>x \<in> set (comma s). str_includes x p"
  unfolding comma_def list_split_def
  using split_loop_includes [of p "'',''" "[]" s "(0, None, False)"] assms by simp

lemma join_includes:
  "x \<in> set xs \<Longrightarrow> str_includes x p \<Longrightarrow> str_includes (join sep xs) p"
proof (induction sep xs rule: join.induct)
  case (3 sep y z zs)
  show ?case
  proof (cases "x = y")
    case True
    with 3 obtain a b where "y = a @ p @ b" by (auto simp: str_includes_iff)
    then have "join sep (y # z # zs) = a @ p @ (b @ sep @ join sep (z # zs))" by simp
    then show ?thesis by (simp only: str_includes_mid)
  next
    case False
    with 3 have "str_includes (join sep (z # zs)) p" by simp
    then obtain a b where "join sep (z # zs) = a @ p @ b" by (auto simp: str_includes_iff)
    then have "join sep (y # z # zs) = (y @ sep @ a) @ p @ b" by simp
    then show ?thesis by (simp only: str_includes_mid)
  qed
qed simp_all

lemma split_loop_scan:
  "scan_string seps st x = Some st1
     \<Longrightarrow> split_loop seps final st current (x @ rest) = split_loop seps final st1 (current @ x) rest"
  by (induction x arbitrary: st current) (auto simp: Let_def split: prod.splits if_splits)

lemma scan_string_spaces:
  "\<forall>c \<in> set ws. is_space c \<Longrightarrow> scan_string '','' (0, None, False) ws = Some (0, None, False)"
  by (induction ws) (auto simp: is_space_simps)

lemma trim_closed:
  assumes "closed_selector x" and "\<forall>c \<in> set a. is_space c"
  shows "trim (a @ x) = x"
proof -
  from assms(1) obtain c cs where x: "x = c # cs" "\<not> is_space c"
    by (cases x) (auto simp: closed_selector_def)
  from assms(2) have "dropWhile is_space (a @ x) = dropWhile is_space x"
    by (simp add: dropWhile_append2)
  also from x have "\<dots> = x" by simp
  finally have 1: "dropWhile is_space (a @ x) = x" .
  from assms(1) have "rev x \<noteq> []" "\<not> is_space (hd (rev x))"
    by (simp_all add: closed_selector_def hd_rev)
  then have "dropWhile is_space (rev x) = rev x" by (cases "rev x") auto
  with 1 show ?thesis by (simp add: trim_def)
qed

lemma split_loop_join:
  assumes "\<forall>x \<in> set (y # ys). closed_selector x" and "\<forall>c \<in> set a. is_space c"
    and "\<forall>c \<in> set ws. is_space c"
  shows "split_loop '','' True (0, None, False) a (join (CHR '','' # ws) (y # ys)) = y # ys"
  using assms(1,2)
proof (induction ys arbitrary: y a)
  case Nil
  then have "scan_string '','' (0, None, False) y = Some (0, None, False)"
    by (simp add: closed_selector_def)
  from split_loop_scan [OF this, of True a "[]"] Nil show ?case
    by (simp add: trim_closed)
next
  case (Cons z zs)
  then have y: "closed_selector y" by simp
  then have sy: "scan_string '','' (0, None, False) y = Some (0, None, False)" and ne: "y \<noteq> []"
    by (simp_all add: closed_selector_def)
  let ?J = "join (CHR '','' # ws) (z # zs)"
  have "split_loop '','' True (0, None, False) a (join (CHR '','' # ws) (y # z # zs))
          = split_loop '','' True (0, None, False) (a @ y) (CHR '','' # ws @ ?J)"
    using split_loop_scan [OF sy, of True a "CHR '','' # ws @ ?J"] by simp
  also have "\<dots> = trim (a @ y) # split_loop '','' True (0, None, False) [] (ws @ ?J)"
    using ne by simp
  also have "split_loop '','' True (0, None, False) [] (ws @ ?J)
               = split_loop '','' True (0, None, False) ws ?J"
    using split_loop_scan [OF scan_string_spaces [OF assms(3)], of True "[]" ?J] by simp
  also have "\<dots> = z # zs"
    using Cons.IH [of z ws] Cons.prems(1) assms(3) by simp
  finally show ?case using y Cons.prems(2) by (simp add: trim_closed)
qed

lemma comma_join:
  "xs \<noteq> [] \<Longrightarrow> \<forall>x \<in> set xs. closed_selector x \<Longrightarrow> \<forall>c \<in> set ws. is_space c
     \<Longrightarrow> comma (join (CHR '','' # ws) xs) = xs"
  unfolding comma_def list_split_def
  using split_loop_join [of "hd xs" "tl xs" "[]" ws] by (cases xs) auto

lemma comma_sep_form:
  "\<exists>ws. (case comma_sep s of Some m \<Rightarrow> m | None \<Rightarrow> '', '') = CHR '','' # ws
          \<and> (\<forall>c \<in> set ws. is_space c)"
proof (induction s)
  case Nil
  then show ?case by (simp add: is_space_simps)
next
  case (Cons c s)
  show ?case
  proof (cases "c = CHR '',''")
    case True
    then show ?thesis by (auto dest: set_takeWhileD)
  next
    case False
    with Cons show ?thesis by simp
  qed
qed

section \<open>Facts about the rule visitor\<close>

lemma decls_of_remove_decls:
  "decls_of (remove_decls p ns) = filter (\<lambda>d. \<not> p d) (decls_of ns)"
  by (induction p ns rule: remove_decls.induct) auto

lemma remove_decls_id:
  "filter p (decls_of ns) = [] \<Longrightarrow> remove_decls p ns = ns"
  by (induction p ns rule: remove_decls.induct) auto

lemma remove_decls_idem:
  "remove_decls p (remove_decls p ns) = remove_decls p ns"
  by (induction p ns rule: remove_decls.induct) auto

lemma visit_Rule_skip:
  "str_includes sel (''.'' @ noWebpClass opts)
     \<Longrightarrow> visit_Rule opts (Rule j sel kids) st = (Rule j sel kids, st)"
  by (simp add: visit_Rule.simps)

lemma visit_Rule_no_match:
  "filter (predicate opts) (decls_of kids) = []
     \<Longrightarrow> visit_Rule opts (Rule j sel kids) st = (Rule j sel kids, st)"
  by (simp add: visit_Rule.simps remove_decls_id)

lemma visit_Rule_fst:
  "fst (visit_Rule opts (Rule j sel kids) st) =
     Rule j sel (if str_includes sel (''.'' @ noWebpClass opts) then kids
                      else remove_decls (predicate opts) kids)"
  by (simp add: visit_Rule.simps Let_def)

section \<open>The plugin on the example\<close>

lemma process_section_rule:
  "process default_options [section_rule] 1
     = ([section_stripped, section_webp, section_no_webp], 3)"
  by (simp add: process_def init_state_def section_rule_def section_stripped_def
     section_webp_def section_no_webp_def visit_Rule.simps default_options_def
     default_predicate_def default_rename_def re_match_ext re_match_mime ci_char_tok
     transformSelectors_def transformSelector_def strip_selector_def str_replace_def
     str_includes_def marker_token_def new_Rule_def new_decl_def OnceExit_def Let_def
     comma_def list_split_def trim_def is_space_simps)

section \<open>Facts about the regular expression replacements\<close>

lemma tails_self: "s \<in> set (tails s)"
  by (cases s) auto

lemma tails_tl: "p \<in> set (tails s) \<Longrightarrow> tl p \<in> set (tails s)"
  by (induction s) (auto simp: tails_self)

lemma token_tails_tl: "x # p \<in> token_tails toks \<Longrightarrow> p \<in> token_tails toks"
  unfolding token_tails_def using tails_tl by fastforce

lemma token_tails_tok: "x # p \<in> set toks \<Longrightarrow> p \<in> token_tails toks"
  unfolding token_tails_def using tails_self by fastforce

lemma re_match_None: "re_match toks s = None \<longleftrightarrow> (\<forall>t \<in> set toks. \<not> ci_prefix t s)"
  by (auto simp: re_match_def find_None_iff)

lemma re_match_Some: "re_match toks s = Some t \<Longrightarrow> t \<in> set toks \<and> ci_prefix t s"
  by (auto simp: re_match_def find_Some_iff)

lemma ci_prefix_replace:
  "\<forall>p \<in> token_tails A. p \<noteq> [] \<longrightarrow> (\<forall>R. \<not> ci_prefix p (rep @ R))
     \<Longrightarrow> p \<in> token_tails A \<Longrightarrow> ci_prefix p (re_replace_all B rep s) \<Longrightarrow> ci_prefix p s"
proof (induction B rep s arbitrary: p rule: re_replace_all.induct)
  case (1 toks rep)
  then show ?case by simp
next
  case (2 toks rep c cs)
  note h1 = "2.prems"(1)
  show ?case
  proof (cases p)
    case Nil
    then show ?thesis by simp
  next
    case (Cons x p')
    show ?thesis
    proof (cases "re_match toks (c # cs)")
      case None
      with "2.prems" Cons have "ci_char x c" and "ci_prefix p' (re_replace_all toks rep cs)"
        by auto
      moreover from "2.prems"(2) Cons have "p' \<in> token_tails A"
        using token_tails_tl by blast
      ultimately show ?thesis
        using "2.IH"(1) [OF None h1] Cons by auto
    next
      case (Some t)
      with "2.prems" Cons show ?thesis by auto
    qed
  qed
qed

lemma re_match_replace_None:
  assumes h1: "\<forall>p \<in> token_tails A. p \<noteq> [] \<longrightarrow> (\<forall>R. \<not> ci_prefix p (rep @ R))"
    and ne: "[] \<notin> set A"
    and m: "re_match A (c # cs) = None"
  shows "re_match A (c # re_replace_all B rep cs) = None"
  unfolding re_match_None
proof
  fix t
  assume t: "t \<in> set A"
  with ne obtain x t' where xt: "t = x # t'" by (cases t) auto
  with t have tl: "t' \<in> token_tails A" using token_tails_tok by blast
  show "\<not> ci_prefix t (c # re_replace_all B rep cs)"
  proof
    assume "ci_prefix t (c # re_replace_all B rep cs)"
    with xt have "ci_char x c" "ci_prefix t' (re_replace_all B rep cs)" by auto
    with ci_prefix_replace [OF h1 tl] xt have "ci_prefix t (c # cs)" by auto
    with m t show False by (simp add: re_match_None)
  qed
qed

lemma re_test_rep:
  "\<forall>r \<in> set (tails r0). r \<noteq> [] \<longrightarrow> (\<forall>R. re_match A (r @ R) = None)
     \<Longrightarrow> re_test A (r0 @ R) = re_test A R"
proof (induction r0)
  case Nil
  then show ?case by simp
next
  case (Cons x r0)
  then have "re_match A ((x # r0) @ R) = None" by simp
  with Cons show ?case by simp
qed

lemma re_test_replace:
  "\<forall>p \<in> token_tails A. p \<noteq> [] \<longrightarrow> (\<forall>R. \<not> ci_prefix p (rep @ R))
     \<Longrightarrow> [] \<notin> set A
     \<Longrightarrow> \<forall>r \<in> set (tails rep). r \<noteq> [] \<longrightarrow> (\<forall>R. re_match A (r @ R) = None)
     \<Longrightarrow> \<forall>n. re_match B (drop n s) = None \<longrightarrow> re_match A (drop n s) = None
     \<Longrightarrow> \<not> re_test A (re_replace_all B rep s)"
proof (induction B rep s rule: re_replace_all.induct)
  case (1 toks rep)
  then show ?case by simp
next
  case (2 toks rep c cs)
  note IH = "2.IH" and h1 = "2.prems"(1) and ne = "2.prems"(2) and h2 = "2.prems"(3)
    and prems = "2.prems"(4)
  show ?case
  proof (cases "re_match toks (c # cs)")
    case None
    have "\<forall>n. re_match toks (drop n cs) = None \<longrightarrow> re_match A (drop n cs) = None"
      using prems [rule_format, of "Suc n" for n] by simp
    with IH(1) [OF None h1 ne h2] have r: "\<not> re_test A (re_replace_all toks rep cs)" by blast
    from prems [rule_format, of 0] None have "re_match A (c # cs) = None" by simp
    from re_match_replace_None [OF h1 ne this]
    have "re_match A (c # re_replace_all toks rep cs) = None" .
    with r None show ?thesis by simp
  next
    case (Some t)
    have "\<forall>n. re_match toks (drop n (drop (length t - 1) cs)) = None
            \<longrightarrow> re_match A (drop n (drop (length t - 1) cs)) = None"
      using prems [rule_format, of "Suc (n + (length t - 1))" for n] by (simp add: add.commute)
    with IH(2) [OF Some h1 ne h2]
    have "\<not> re_test A (re_replace_all toks rep (drop (length t - 1) cs))" by blast
    with re_test_rep [OF h2] Some show ?thesis by simp
  qed
qed

lemma ext_tails:
  "token_tails extension_tokens =
     {''jpeg'', ''peg'', ''eg'', ''g'', [], ''jpg'', ''pg'', ''png'', ''ng'', ''gif'', ''if'', ''f'',
      ''avif'', ''vif''}"
  by (auto simp: token_tails_def extension_tokens_def)

lemma mime_tails:
  "token_tails mime_tokens =
     {''mage/jpeg'', ''age/jpeg'', ''ge/jpeg'', ''e/jpeg'', ''/jpeg'', ''jpeg'', ''peg'', ''eg'', ''g'', [],
      ''mage/png'', ''age/png'', ''ge/png'', ''e/png'', ''/png'', ''png'', ''ng'',
      ''mage/gif'', ''age/gif'', ''ge/gif'', ''e/gif'', ''/gif'', ''gif'', ''if'', ''f'',
      ''mage/avif'', ''age/avif'', ''ge/avif'', ''e/avif'', ''/avif'', ''avif'', ''vif''}"
  by (auto simp: token_tails_def mime_tokens_def)

lemma ext_h1_webp:
  "\<forall>p \<in> token_tails extension_tokens. p \<noteq> [] \<longrightarrow> (\<forall>R. \<not> ci_prefix p (''.webp'' @ R))"
  by (simp add: ext_tails ci_char_tok)

lemma ext_h1_image:
  "\<forall>p \<in> token_tails extension_tokens. p \<noteq> [] \<longrightarrow> (\<forall>R. \<not> ci_prefix p (''image/webp'' @ R))"
  by (simp add: ext_tails ci_char_tok)

lemma mime_h1_image:
  "\<forall>p \<in> token_tails mime_tokens. p \<noteq> [] \<longrightarrow> (\<forall>R. \<not> ci_prefix p (''image/webp'' @ R))"
  by (simp add: mime_tails ci_char_tok)

lemma ext_h2_webp:
  "\<forall>r \<in> set (tails ''.webp''). r \<noteq> [] \<longrightarrow> (\<forall>R. re_match extension_tokens (r @ R) = None)"
  by (simp add: re_match_ext ci_char_tok)

lemma ext_h2_image:
  "\<forall>r \<in> set (tails ''image/webp''). r \<noteq> [] \<longrightarrow> (\<forall>R. re_match extension_tokens (r @ R) = None)"
  by (simp add: re_match_ext ci_char_tok)

lemma mime_h2_image:
  "\<forall>r \<in> set (tails ''image/webp''). r \<noteq> [] \<longrightarrow> (\<forall>R. re_match mime_tokens (r @ R) = None)"
  by (simp add: re_match_mime ci_char_tok)

lemma re_test_drop: "[] \<notin> set A \<Longrightarrow> \<not> re_test A s \<Longrightarrow> re_match A (drop n s) = None"
proof (induction s arbitrary: n)
  case Nil
  then have "\<not> ci_prefix t []" if "t \<in> set A" for t
    using that by (cases t) auto
  then show ?case by (simp add: re_match_None)
next
  case (Cons c cs)
  then show ?case by (cases n) auto
qed

lemma ext_replaced: "\<not> re_test extension_tokens (re_replace_all extension_tokens ''.webp'' s)"
  by (rule re_test_replace [OF ext_h1_webp _ ext_h2_webp]) (simp_all add: extension_tokens_def)

lemma mime_replaced: "\<not> re_test mime_tokens (re_replace_all mime_tokens ''image/webp'' s)"
  by (rule re_test_replace [OF mime_h1_image _ mime_h2_image]) (simp_all add: mime_tokens_def)

lemma mime_keeps_ext:
  "\<not> re_test extension_tokens s
     \<Longrightarrow> \<not> re_test extension_tokens (re_replace_all mime_tokens ''image/webp'' s)"
  by (rule re_test_replace [OF ext_h1_image _ ext_h2_image])
     (simp_all add: extension_tokens_def re_test_drop)

lemma default_rename_no_extension: "\<not> re_test extension_tokens (default_rename d)"
  by (simp add: default_rename_def mime_keeps_ext ext_replaced)

lemma default_rename_no_mime: "\<not> re_test mime_tokens (default_rename d)"
  by (simp add: default_rename_def mime_replaced)

lemma tails_suffix: "p \<in> set (tails s) \<longleftrightarrow> (\<exists>q. s = q @ p)"
proof (induction s)
  case Nil
  then show ?case by auto
next
  case (Cons x s)
  show ?case
  proof
    assume "p \<in> set (tails (x # s))"
    then consider "p = x # s" | "p \<in> set (tails s)" by auto
    then show "\<exists>q. x # s = q @ p"
    proof cases
      case 1
      then show ?thesis by simp
    next
      case 2
      with Cons obtain q where "s = q @ p" by blast
      then have "x # s = (x # q) @ p" by simp
      then show ?thesis by blast
    qed
  next
    assume "\<exists>q. x # s = q @ p"
    then obtain q where q: "x # s = q @ p" by blast
    show "p \<in> set (tails (x # s))"
    proof (cases q)
      case Nil
      with q tails_self [of p] show ?thesis by simp
    next
      case (Cons y q')
      with q have "s = q' @ p" by simp
      with Cons.IH show ?thesis by auto
    qed
  qed
qed

lemma token_tails_split:
  "t \<in> set A \<Longrightarrow> t = t1 @ t2 \<Longrightarrow> t1 \<noteq> [] \<Longrightarrow> t2 \<in> token_tails A"
proof -
  assume t: "t \<in> set A" and e: "t = t1 @ t2" and n: "t1 \<noteq> []"
  from n obtain x q where "t1 = x # q" by (cases t1) auto
  with e have "tl t = q @ t2" by simp
  then have "t2 \<in> set (tails (tl t))" by (auto simp: tails_suffix)
  with t show ?thesis by (auto simp: token_tails_def)
qed

lemma ci_prefix_append:
  "ci_prefix t (a @ b) \<Longrightarrow>
     ci_prefix t a \<or> (\<exists>t1 t2. t = t1 @ t2 \<and> length t1 = length a \<and> t2 \<noteq> [] \<and> ci_prefix t2 b)"
proof (induction t a rule: ci_prefix.induct)
  case (1 s)
  then show ?case by simp
next
  case (2 p ps)
  then show ?case by auto
next
  case (3 p ps c cs)
  then have "ci_char p c" and "ci_prefix ps (cs @ b)" by auto
  with "3.IH" consider "ci_prefix ps cs"
    | t1 t2 where "ps = t1 @ t2" "length t1 = length cs" "t2 \<noteq> []" "ci_prefix t2 b"
    by blast
  then show ?case
  proof cases
    case 1
    with \<open>ci_char p c\<close> show ?thesis by simp
  next
    case 2
    then have "p # ps = (p # t1) @ t2 \<and> length (p # t1) = length (c # cs) \<and> t2 \<noteq> []
        \<and> ci_prefix t2 b"
      by simp
    then show ?thesis by blast
  qed
qed

lemma re_replace_all_occurrence:
  assumes h3: "\<forall>p \<in> token_tails A. p \<noteq> [] \<longrightarrow> (\<forall>x. re_match A x \<noteq> None \<longrightarrow> \<not> ci_prefix p x)"
    and ne: "[] \<notin> set A"
    and m: "re_match A (m @ rest) = Some tok" "length m = length tok"
  shows "\<not> re_test A u \<Longrightarrow> re_replace_all A rep (u @ m @ rest) = u @ rep @ re_replace_all A rep rest"
proof (induction u)
  case Nil
  from m(1) have "tok \<in> set A" using re_match_Some by blast
  with ne have "tok \<noteq> []" by auto
  with m(2) obtain c m' where c: "m = c # m'" by (cases m) auto
  with m(2) have "drop (length tok - 1) (m' @ rest) = rest" by simp
  with m(1) c show ?case by simp
next
  case (Cons c u)
  then have n: "re_match A (c # u) = None" and r: "\<not> re_test A u" by auto
  have "re_match A (c # u @ m @ rest) = None"
    unfolding re_match_None
  proof
    fix t
    assume t: "t \<in> set A"
    show "\<not> ci_prefix t (c # u @ m @ rest)"
    proof
      assume "ci_prefix t (c # u @ m @ rest)"
      then have "ci_prefix t ((c # u) @ (m @ rest))" by simp
      from ci_prefix_append [OF this]
      consider "ci_prefix t (c # u)"
        | t1 t2 where "t = t1 @ t2" "length t1 = length (c # u)" "t2 \<noteq> []"
            "ci_prefix t2 (m @ rest)"
        by blast
      then show False
      proof cases
        case 1
        with n t show False by (simp add: re_match_None)
      next
        case 2
        then have "t1 \<noteq> []" by auto
        from token_tails_split [OF t 2(1) this] have "t2 \<in> token_tails A" .
        with h3 2(3,4) m(1) show False by auto
      qed
    qed
  qed
  with Cons.IH [OF r] show ?case by simp
qed

lemma ci_prefix_Cons_iff:
  "ci_prefix (a # p) x \<longleftrightarrow> (\<exists>c cs. x = c # cs \<and> ci_char a c \<and> ci_prefix p cs)"
  by (cases x) auto

lemma ext_match_dot: "re_match extension_tokens x \<noteq> None \<Longrightarrow> \<exists>cs. x = CHR ''.'' # cs"
  by (cases x) (auto simp: re_match_ext ci_char_dot split: if_splits)

lemma mime_match_im:
  "re_match mime_tokens x \<noteq> None \<Longrightarrow> \<exists>c1 c2 cs. x = c1 # c2 # cs \<and> ci_char CHR ''i'' c1 \<and> ci_char CHR ''m'' c2"
proof -
  assume "re_match mime_tokens x \<noteq> None"
  then have "ci_prefix ''im'' x"
    by (auto simp: re_match_mime ci_prefix_Cons_iff split: if_splits)
  then show ?thesis by (auto simp: ci_prefix_Cons_iff)
qed

lemma ext_h3:
  "\<forall>p \<in> token_tails extension_tokens. p \<noteq> [] \<longrightarrow>
     (\<forall>x. re_match extension_tokens x \<noteq> None \<longrightarrow> \<not> ci_prefix p x)"
proof (intro ballI impI allI)
  fix p x
  assume p: "p \<in> token_tails extension_tokens" "p \<noteq> []"
    and "re_match extension_tokens x \<noteq> None"
  then obtain cs where x: "x = CHR ''.'' # cs" using ext_match_dot by blast
  from p obtain q ps where q: "p = q # ps" "q \<in> set ''jpegnifav''"
    unfolding ext_tails by auto
  from q(2) have "\<not> ci_char q CHR ''.''"
    by (auto simp: ci_char_tok)
  with x q(1) show "\<not> ci_prefix p x" by simp
qed

lemma mime_tail_heads:
  "p \<in> token_tails mime_tokens \<Longrightarrow> p \<noteq> [] \<Longrightarrow> p = ''if'' \<or> hd p \<in> set ''mage/jpnfv''"
  unfolding mime_tails by auto

lemma not_ci_char_i:
  "q \<in> set ''mage/jpnfv'' \<Longrightarrow> ci_char CHR ''i'' c \<Longrightarrow> \<not> ci_char q c"
proof -
  assume q: "q \<in> set ''mage/jpnfv''" and "ci_char CHR ''i'' c"
  then have c: "c = CHR ''i'' \<or> c = CHR ''I''" by (simp add: ci_char_i)
  from q consider "q = CHR ''m''" | "q = CHR ''a''" | "q = CHR ''g''" | "q = CHR ''e''"
    | "q = CHR ''/''" | "q = CHR ''j''" | "q = CHR ''p''" | "q = CHR ''n''" | "q = CHR ''f''"
    | "q = CHR ''v''"
    by auto
  then show ?thesis
    using c by cases (auto simp: ci_char_tok)
qed

lemma mime_h3:
  "\<forall>p \<in> token_tails mime_tokens. p \<noteq> [] \<longrightarrow>
     (\<forall>x. re_match mime_tokens x \<noteq> None \<longrightarrow> \<not> ci_prefix p x)"
proof (intro ballI impI allI)
  fix p x
  assume p: "p \<in> token_tails mime_tokens" "p \<noteq> []"
    and "re_match mime_tokens x \<noteq> None"
  then obtain c1 c2 cs where x: "x = c1 # c2 # cs" "ci_char CHR ''i'' c1" "ci_char CHR ''m'' c2"
    using mime_match_im by blast
  from mime_tail_heads [OF p] show "\<not> ci_prefix p x"
  proof
    assume i: "p = ''if''"
    from x(3) have "\<not> ci_char CHR ''f'' c2" by (auto simp: ci_char_tok)
    with i x(1) show ?thesis by simp
  next
    assume h: "hd p \<in> set ''mage/jpnfv''"
    from p(2) obtain q ps where q: "p = q # ps" by (cases p) auto
    with h not_ci_char_i [OF _ x(2)] have "\<not> ci_char q c1" by simp
    with q x(1) show ?thesis by simp
  qed
qed

lemma ci_prefix_mono: "ci_prefix t a \<Longrightarrow> ci_prefix t (a @ x)"
  by (induction t a rule: ci_prefix.induct) auto

lemma ci_prefix_length: "ci_prefix t a \<Longrightarrow> length t \<le> length a"
  by (induction t a rule: ci_prefix.induct) auto

lemma ci_prefix_no_straddle:
  assumes "no_straddle A x" "t \<in> set A" "a \<noteq> []"
  shows "ci_prefix t (a @ x) \<longleftrightarrow> ci_prefix t a"
proof
  assume "ci_prefix t (a @ x)"
  from ci_prefix_append [OF this] show "ci_prefix t a"
  proof
    assume "\<exists>t1 t2. t = t1 @ t2 \<and> length t1 = length a \<and> t2 \<noteq> [] \<and> ci_prefix t2 x"
    then obtain t1 t2 where s: "t = t1 @ t2" "length t1 = length a" "t2 \<noteq> []" "ci_prefix t2 x"
      by blast
    with assms(3) have "t1 \<noteq> []" by auto
    from token_tails_split [OF assms(2) s(1) this] s(3,4) assms(1)
    show ?thesis by (auto simp: no_straddle_def)
  qed
qed (rule ci_prefix_mono)

lemma re_match_no_straddle:
  "no_straddle A x \<Longrightarrow> a \<noteq> [] \<Longrightarrow> re_match A (a @ x) = re_match A a"
  unfolding re_match_def
  by (rule find_cong) (simp_all add: ci_prefix_no_straddle)

lemma re_replace_all_append:
  "no_straddle A x \<Longrightarrow>
     re_replace_all A rep (a @ x) = re_replace_all A rep a @ re_replace_all A rep x"
proof (induction A rep a rule: re_replace_all.induct)
  case (1 toks rep)
  then show ?case by simp
next
  case (2 toks rep c cs)
  from re_match_no_straddle [OF "2.prems", of "c # cs"]
  have e: "re_match toks (c # cs @ x) = re_match toks (c # cs)" by simp
  show ?case
  proof (cases "re_match toks (c # cs)")
    case None
    with e "2.IH"(1) [OF None "2.prems"] show ?thesis by simp
  next
    case (Some t)
    then have "length t \<le> length (c # cs)"
      using re_match_Some ci_prefix_length by blast
    then have "drop (length t - 1) (cs @ x) = drop (length t - 1) cs @ x" by simp
    with e Some "2.IH"(2) [OF Some "2.prems"] show ?thesis by simp
  qed
qed

lemma re_replace_all_id: "\<not> re_test A s \<Longrightarrow> re_replace_all A rep s = s"
  by (induction A rep s rule: re_replace_all.induct) auto

lemma re_replace_all_copy:
  "\<forall>r \<in> set (tails m). r \<noteq> [] \<longrightarrow> re_match A (r @ rest) = None
     \<Longrightarrow> re_replace_all A rep (m @ rest) = m @ re_replace_all A rep rest"
  by (induction m) auto

lemma no_straddle_match:
  assumes "\<forall>p \<in> token_tails A. p \<noteq> [] \<longrightarrow> (\<forall>x. re_match A x \<noteq> None \<longrightarrow> \<not> ci_prefix p x)"
    and "re_match A x \<noteq> None"
  shows "no_straddle A x"
  using assms by (auto simp: no_straddle_def)

lemma re_replace_all_at_match:
  assumes "[] \<notin> set A" "re_match A (m @ rest) = Some tok" "length m = length tok"
  shows "re_replace_all A rep (m @ rest) = rep @ re_replace_all A rep rest"
proof -
  from assms(2) have "tok \<in> set A" using re_match_Some by blast
  with assms(1) have "tok \<noteq> []" by auto
  with assms(3) obtain c m' where c: "m = c # m'" by (cases m) auto
  with assms(3) have "drop (length tok - 1) (m' @ rest) = rest" by simp
  with assms(2) c show ?thesis by simp
qed

lemma ci_char_trans: "ci_char p c \<Longrightarrow> ci_char q c \<Longrightarrow> ci_char p q"
  by (simp add: ci_char_def)

lemma ci_prefix_common:
  "ci_prefix t s \<Longrightarrow> ci_prefix t' s \<Longrightarrow> ci_prefix t t' \<or> ci_prefix t' t"
proof (induction t s arbitrary: t' rule: ci_prefix.induct)
  case (1 s)
  then show ?case by simp
next
  case (2 p ps)
  then show ?case by simp
next
  case (3 p ps c cs)
  show ?case
  proof (cases t')
    case Nil
    then show ?thesis by simp
  next
    case (Cons q qs)
    with "3.prems" have "ci_char p c" "ci_char q c" "ci_prefix ps cs" "ci_prefix qs cs" by auto
    with "3.IH" [of qs] Cons ci_char_trans [of p c q] ci_char_trans [of q c p]
    show ?thesis by auto
  qed
qed

lemma ext_prefix_free: "prefix_free extension_tokens"
  by (simp add: prefix_free_def extension_tokens_def ci_char_tok)

lemma mime_prefix_free: "prefix_free mime_tokens"
  by (simp add: prefix_free_def mime_tokens_def ci_char_tok)

lemma occurrence_match:
  assumes "prefix_free A" "is_occurrence A m"
  shows "\<exists>tok. re_match A (m @ X) = Some tok \<and> length m = length tok"
proof -
  from assms(2) obtain tok where tok: "tok \<in> set A" "length m = length tok" "ci_prefix tok m"
    by (auto simp: is_occurrence_def)
  then have c: "ci_prefix tok (m @ X)" using ci_prefix_mono by blast
  with tok(1) have "re_match A (m @ X) \<noteq> None" by (auto simp: re_match_None)
  then obtain t where t: "re_match A (m @ X) = Some t" by blast
  then have "t \<in> set A" "ci_prefix t (m @ X)" using re_match_Some by blast+
  with c tok(1) assms(1) ci_prefix_common [of t "m @ X" tok] have "t = tok"
    by (auto simp: prefix_free_def)
  with t tok(2) show ?thesis by simp
qed

lemma re_replace_all_occurrence_split:
  assumes h3: "\<forall>p \<in> token_tails A. p \<noteq> [] \<longrightarrow> (\<forall>x. re_match A x \<noteq> None \<longrightarrow> \<not> ci_prefix p x)"
    and ne: "[] \<notin> set A" and pf: "prefix_free A" and occ: "is_occurrence A m"
  shows "re_replace_all A rep (u @ m @ rest)
           = re_replace_all A rep u @ rep @ re_replace_all A rep rest"
proof -
  from occurrence_match [OF pf occ, of rest] obtain tok
    where tok: "re_match A (m @ rest) = Some tok" "length m = length tok" by blast
  then have "no_straddle A (m @ rest)" using no_straddle_match [OF h3] by simp
  from re_replace_all_append [OF this] re_replace_all_at_match [OF ne tok]
  show ?thesis by simp
qed

lemma ext_occurrence_split:
  "is_occurrence extension_tokens m \<Longrightarrow>
     re_replace_all extension_tokens rep (u @ m @ rest)
       = re_replace_all extension_tokens rep u @ rep @ re_replace_all extension_tokens rep rest"
  by (rule re_replace_all_occurrence_split [OF ext_h3 _ ext_prefix_free])
     (simp_all add: extension_tokens_def)

lemma mime_occurrence_split:
  "is_occurrence mime_tokens m \<Longrightarrow>
     re_replace_all mime_tokens rep (u @ m @ rest)
       = re_replace_all mime_tokens rep u @ rep @ re_replace_all mime_tokens rep rest"
  by (rule re_replace_all_occurrence_split [OF mime_h3 _ mime_prefix_free])
     (simp_all add: mime_tokens_def)

lemma ext_tail_heads:
  "p \<in> token_tails extension_tokens \<Longrightarrow> p \<noteq> [] \<Longrightarrow> p = ''if'' \<or> hd p \<in> set ''jpegnfav''"
  unfolding ext_tails by auto

lemma not_ci_char_i_ext:
  "q \<in> set ''jpegnfav'' \<Longrightarrow> ci_char CHR ''i'' c \<Longrightarrow> \<not> ci_char q c"
proof -
  assume q: "q \<in> set ''jpegnfav''" and "ci_char CHR ''i'' c"
  then have c: "c = CHR ''i'' \<or> c = CHR ''I''" by (simp add: ci_char_i)
  from q consider "q = CHR ''j''" | "q = CHR ''p''" | "q = CHR ''e''" | "q = CHR ''g''"
    | "q = CHR ''n''" | "q = CHR ''f''" | "q = CHR ''a''" | "q = CHR ''v''"
    by auto
  then show ?thesis
    using c by cases (auto simp: ci_char_tok)
qed

lemma ext_no_straddle_mime:
  assumes "re_match mime_tokens x \<noteq> None"
  shows "no_straddle extension_tokens x"
  unfolding no_straddle_def
proof (intro ballI impI)
  fix p
  assume p: "p \<in> token_tails extension_tokens" "p \<noteq> []"
  from assms obtain c1 c2 cs
    where x: "x = c1 # c2 # cs" "ci_char CHR ''i'' c1" "ci_char CHR ''m'' c2"
    using mime_match_im by blast
  from ext_tail_heads [OF p] show "\<not> ci_prefix p x"
  proof
    assume i: "p = ''if''"
    from x(3) have "\<not> ci_char CHR ''f'' c2" by (auto simp: ci_char_tok)
    with i x(1) show ?thesis by simp
  next
    assume h: "hd p \<in> set ''jpegnfav''"
    from p(2) obtain q ps where q: "p = q # ps" by (cases p) auto
    with h not_ci_char_i_ext [OF _ x(2)] have "\<not> ci_char q c1" by simp
    with q x(1) show ?thesis by simp
  qed
qed

lemma ci_char_dot_right: "ci_char p CHR ''.'' \<Longrightarrow> p = CHR ''.''"
  using ci_char_dot [of p] by (simp add: ci_char_def eq_commute)

lemma ci_prefix_no_dot:
  "ci_prefix tok m \<Longrightarrow> length m = length tok \<Longrightarrow> CHR ''.'' \<notin> set tok \<Longrightarrow> CHR ''.'' \<notin> set m"
  by (induction tok m rule: ci_prefix.induct) (auto dest: ci_char_dot_right)

lemma mime_occurrence_no_dot: "is_occurrence mime_tokens m \<Longrightarrow> CHR ''.'' \<notin> set m"
  unfolding is_occurrence_def mime_tokens_def
  using ci_prefix_no_dot by fastforce

lemma tails_hd: "r \<in> set (tails m) \<Longrightarrow> r \<noteq> [] \<Longrightarrow> hd r \<in> set m"
  by (induction m) auto

lemma ext_copies_mime_occurrence:
  assumes "is_occurrence mime_tokens m"
  shows "re_replace_all extension_tokens rep (u @ m @ rest)
           = re_replace_all extension_tokens rep u @ m @ re_replace_all extension_tokens rep rest"
proof -
  from occurrence_match [OF mime_prefix_free assms, of rest]
  have "re_match mime_tokens (m @ rest) \<noteq> None" by auto
  then have n: "no_straddle extension_tokens (m @ rest)" by (rule ext_no_straddle_mime)
  have "re_match extension_tokens (r @ rest) = None" if "r \<in> set (tails m)" "r \<noteq> []" for r
  proof -
    from that tails_hd mime_occurrence_no_dot [OF assms] have "hd r \<noteq> CHR ''.''" by metis
    with that(2) have "\<not> (\<exists>cs. r @ rest = CHR ''.'' # cs)" by (cases r) auto
    with ext_match_dot show ?thesis by blast
  qed
  then have "re_replace_all extension_tokens rep (m @ rest)
               = m @ re_replace_all extension_tokens rep rest"
    using re_replace_all_copy by blast
  with re_replace_all_append [OF n] show ?thesis by simp
qed

lemma mime_h1_webp:
  "\<forall>p \<in> token_tails mime_tokens. p \<noteq> [] \<longrightarrow> (\<forall>R. \<not> ci_prefix p (''.webp'' @ R))"
  by (simp add: mime_tails ci_char_tok)

lemma mime_h2_webp:
  "\<forall>r \<in> set (tails ''.webp''). r \<noteq> [] \<longrightarrow> (\<forall>R. re_match mime_tokens (r @ R) = None)"
  by (simp add: re_match_mime ci_char_tok)

lemma mime_copies_webp:
  "re_replace_all mime_tokens rep (a @ ''.webp'' @ b)
     = re_replace_all mime_tokens rep a @ ''.webp'' @ re_replace_all mime_tokens rep b"
proof -
  have "no_straddle mime_tokens (''.webp'' @ b)"
    using mime_h1_webp by (simp add: no_straddle_def)
  moreover have "re_replace_all mime_tokens rep (''.webp'' @ b)
      = ''.webp'' @ re_replace_all mime_tokens rep b"
    using mime_h2_webp by (intro re_replace_all_copy) blast
  ultimately show ?thesis using re_replace_all_append by simp
qed

lemma default_rename_value: "default_rename d = rename_value (decl_value d)"
  by (simp add: rename_value_def default_rename_def)

lemma rename_value_passes:
  "rename_value v =
     re_replace_all mime_tokens ''image/webp'' (re_replace_all extension_tokens ''.webp'' v)"
  by (simp add: rename_value_def default_rename_def)

lemma rename_value_extension:
  "is_occurrence extension_tokens m \<Longrightarrow>
     rename_value (u @ m @ rest) = rename_value u @ ''.webp'' @ rename_value rest"
  by (simp only: rename_value_passes ext_occurrence_split mime_copies_webp)

lemma rename_value_mime:
  "is_occurrence mime_tokens m \<Longrightarrow>
     rename_value (u @ m @ rest) = rename_value u @ ''image/webp'' @ rename_value rest"
  by (simp only: rename_value_passes ext_copies_mime_occurrence mime_occurrence_split)

lemma rename_value_id:
  "\<not> re_test extension_tokens v \<Longrightarrow> \<not> re_test mime_tokens v \<Longrightarrow> rename_value v = v"
  by (simp add: rename_value_passes re_replace_all_id)

section \<open>The tree after OnceExit\<close>

text \<open>
  When the references of the rules are distinct and no variant carries the reference of
  a key, the two loops of \<^verbatim>\<open>OnceExit\<close> compute the tree that \<^const>\<open>expand\<close> gives for
  the two maps.
\<close>

lemma refs_of_append: "refs_of (a @ b) = refs_of a @ refs_of b"
  by (induction a rule: refs_of.induct) auto

lemma after_absent: "ref \<notin> set (refs_of t) \<Longrightarrow> after ref new t = t"
  by (induction ref new t rule: after.induct) auto

lemma after_append_absent:
  "ref \<notin> set (refs_of a) \<Longrightarrow> after ref new (a @ b) = a @ after ref new b"
  by (induction ref new a rule: after.induct) (auto simp: after_absent)

lemma expand_empty: "expand (\<lambda>_. None) (\<lambda>_. None) t = t"
  by (induction t rule: refs_of.induct) auto

lemma expand_cong:
  "\<forall>i \<in> set (refs_of t). w i = w' i \<and> nw i = nw' i \<Longrightarrow> expand w nw t = expand w' nw' t"
  by (induction w nw t rule: expand.induct) auto

lemma clear_of_opt: "clear_of ref m \<Longrightarrow> ref \<notin> set (refs_of (opt_list (m i)))"
  by (cases "m i") (auto simp: clear_of_def)

lemma after_expand_webp:
  assumes "clear_of ref w" "clear_of ref nw" "w ref = None"
  shows "distinct (refs_of t) \<Longrightarrow> after ref new (expand w nw t) = expand (w(ref \<mapsto> new)) nw t"
proof (induction t rule: refs_of.induct)
  case (3 j sel kids ns)
  show ?case
  proof (cases "j = ref")
    case True
    with "3.prems" have "ref \<notin> set (refs_of kids)" "ref \<notin> set (refs_of ns)" by auto
    then have "expand (w(ref \<mapsto> new)) nw kids = expand w nw kids"
      "expand (w(ref \<mapsto> new)) nw ns = expand w nw ns"
      by (auto intro!: expand_cong)
    with True assms(3) show ?thesis by (simp add: fun_upd_def)
  next
    case False
    from "3.prems" have d: "distinct (refs_of kids)" "distinct (refs_of ns)" by auto
    have "ref \<notin> set (refs_of (opt_list (w j) @ opt_list (nw j)))"
      using clear_of_opt [OF assms(1)] clear_of_opt [OF assms(2)] by (simp add: refs_of_append)
    from after_append_absent [OF this]
    have "after ref new (opt_list (w j) @ opt_list (nw j) @ expand w nw ns)
            = opt_list (w j) @ opt_list (nw j) @ after ref new (expand w nw ns)"
      by simp
    with False "3.IH"(1) [OF d(1)] "3.IH"(2) [OF d(2)] show ?thesis by simp
  qed
qed auto

lemma after_expand_no_webp:
  assumes "clear_of ref w" "clear_of ref nw" "w ref = None" "nw ref = None"
  shows "distinct (refs_of t) \<Longrightarrow> after ref new (expand w nw t) = expand w (nw(ref \<mapsto> new)) t"
proof (induction t rule: refs_of.induct)
  case (3 j sel kids ns)
  show ?case
  proof (cases "j = ref")
    case True
    with "3.prems" have "ref \<notin> set (refs_of kids)" "ref \<notin> set (refs_of ns)" by auto
    then have "expand w (nw(ref \<mapsto> new)) kids = expand w nw kids"
      "expand w (nw(ref \<mapsto> new)) ns = expand w nw ns"
      by (auto intro!: expand_cong)
    with True assms(3,4) show ?thesis by (simp add: fun_upd_def)
  next
    case False
    from "3.prems" have d: "distinct (refs_of kids)" "distinct (refs_of ns)" by auto
    have "ref \<notin> set (refs_of (opt_list (w j) @ opt_list (nw j)))"
      using clear_of_opt [OF assms(1)] clear_of_opt [OF assms(2)] by (simp add: refs_of_append)
    from after_append_absent [OF this]
    have "after ref new (opt_list (w j) @ opt_list (nw j) @ expand w nw ns)
            = opt_list (w j) @ opt_list (nw j) @ after ref new (expand w nw ns)"
      by simp
    with False "3.IH"(1) [OF d(1)] "3.IH"(2) [OF d(2)] show ?thesis by simp
  qed
qed auto

lemma clear_of_upd: "clear_of k m \<Longrightarrow> k \<notin> set (refs_of [x]) \<Longrightarrow> clear_of k (m(j \<mapsto> x))"
  by (auto simp: clear_of_def)

lemma clear_of_map_of:
  "\<forall>v \<in> snd ` set al. k \<notin> set (refs_of [v]) \<Longrightarrow> clear_of k (map_of al)"
  unfolding clear_of_def by (metis map_of_SomeD snd_conv image_eqI)

lemma fold_after_no_webp:
  "distinct (refs_of t) \<Longrightarrow> distinct (map fst al)
     \<Longrightarrow> \<forall>k \<in> fst ` set al. clear_of k w \<and> clear_of k nw \<and> w k = None \<and> nw k = None
     \<Longrightarrow> \<forall>k \<in> fst ` set al. \<forall>v \<in> snd ` set al. k \<notin> set (refs_of [v])
     \<Longrightarrow> foldl (\<lambda>r (rule, x). after rule x r) (expand w nw t) al = expand w (nw ++ map_of al) t"
proof (induction al arbitrary: nw)
  case Nil
  then show ?case by simp
next
  case (Cons p al)
  obtain j x where p: "p = (j, x)" by (cases p)
  from Cons.prems p have j: "clear_of j w" "clear_of j nw" "w j = None" "nw j = None"
    by auto
  from after_expand_no_webp [OF j Cons.prems(1)]
  have s: "after j x (expand w nw t) = expand w (nw(j \<mapsto> x)) t" .
  from Cons.prems(2) p have d: "distinct (map fst al)" and nj: "j \<notin> fst ` set al" by auto
  have c: "\<forall>k \<in> fst ` set al. clear_of k w \<and> clear_of k (nw(j \<mapsto> x)) \<and> w k = None
             \<and> (nw(j \<mapsto> x)) k = None"
  proof
    fix k
    assume k: "k \<in> fst ` set al"
    with Cons.prems(3) have "clear_of k w" "clear_of k nw" "w k = None" "nw k = None" by auto
    moreover from k Cons.prems(4) p have "k \<notin> set (refs_of [x])" by auto
    moreover from k nj have "k \<noteq> j" by auto
    ultimately show "clear_of k w \<and> clear_of k (nw(j \<mapsto> x)) \<and> w k = None
             \<and> (nw(j \<mapsto> x)) k = None"
      by (simp add: clear_of_upd)
  qed
  from Cons.prems(4) have v: "\<forall>k \<in> fst ` set al. \<forall>v \<in> snd ` set al. k \<notin> set (refs_of [v])"
    by auto
  from nj have "j \<notin> dom (map_of al)" by (simp add: dom_map_of_conv_image_fst)
  then have m: "nw(j \<mapsto> x) ++ map_of al = nw ++ map_of (p # al)"
    unfolding p by (simp add: map_add_upd_left)
  have "foldl (\<lambda>r (rule, x). after rule x r) (expand w nw t) (p # al)
          = foldl (\<lambda>r (rule, x). after rule x r) (after j x (expand w nw t)) al"
    unfolding p by simp
  also have "\<dots> = foldl (\<lambda>r (rule, x). after rule x r) (expand w (nw(j \<mapsto> x)) t) al"
    by (simp only: s)
  also have "\<dots> = expand w (nw(j \<mapsto> x) ++ map_of al) t"
    by (rule Cons.IH [OF Cons.prems(1) d c v])
  finally show ?case by (simp only: m)
qed

lemma fold_after_webp:
  "distinct (refs_of t) \<Longrightarrow> distinct (map fst al)
     \<Longrightarrow> \<forall>k \<in> fst ` set al. clear_of k w \<and> clear_of k nw \<and> w k = None
     \<Longrightarrow> \<forall>k \<in> fst ` set al. \<forall>v \<in> snd ` set al. k \<notin> set (refs_of [v])
     \<Longrightarrow> foldl (\<lambda>r (rule, x). after rule x r) (expand w nw t) al = expand (w ++ map_of al) nw t"
proof (induction al arbitrary: w)
  case Nil
  then show ?case by simp
next
  case (Cons p al)
  obtain j x where p: "p = (j, x)" by (cases p)
  from Cons.prems p have j: "clear_of j w" "clear_of j nw" "w j = None"
    by auto
  from after_expand_webp [OF j Cons.prems(1)]
  have s: "after j x (expand w nw t) = expand (w(j \<mapsto> x)) nw t" .
  from Cons.prems(2) p have d: "distinct (map fst al)" and nj: "j \<notin> fst ` set al" by auto
  have c: "\<forall>k \<in> fst ` set al. clear_of k (w(j \<mapsto> x)) \<and> clear_of k nw
             \<and> (w(j \<mapsto> x)) k = None"
  proof
    fix k
    assume k: "k \<in> fst ` set al"
    with Cons.prems(3) have "clear_of k w" "clear_of k nw" "w k = None" by auto
    moreover from k Cons.prems(4) p have "k \<notin> set (refs_of [x])" by auto
    moreover from k nj have "k \<noteq> j" by auto
    ultimately show "clear_of k (w(j \<mapsto> x)) \<and> clear_of k nw \<and> (w(j \<mapsto> x)) k = None"
      by (simp add: clear_of_upd)
  qed
  from Cons.prems(4) have v: "\<forall>k \<in> fst ` set al. \<forall>v \<in> snd ` set al. k \<notin> set (refs_of [v])"
    by auto
  from nj have "j \<notin> dom (map_of al)" by (simp add: dom_map_of_conv_image_fst)
  then have m: "w(j \<mapsto> x) ++ map_of al = w ++ map_of (p # al)"
    unfolding p by (simp add: map_add_upd_left)
  have "foldl (\<lambda>r (rule, x). after rule x r) (expand w nw t) (p # al)
          = foldl (\<lambda>r (rule, x). after rule x r) (after j x (expand w nw t)) al"
    unfolding p by simp
  also have "\<dots> = foldl (\<lambda>r (rule, x). after rule x r) (expand (w(j \<mapsto> x)) nw t) al"
    by (simp only: s)
  also have "\<dots> = expand (w(j \<mapsto> x) ++ map_of al) nw t"
    by (rule Cons.IH [OF Cons.prems(1) d c v])
  finally show ?case by (simp only: m)
qed

lemma OnceExit_expand:
  assumes "distinct (refs_of t)"
    and "distinct (map fst (noWebpRules st))" "distinct (map fst (webpRules st))"
    and "state_keys st \<inter> variant_refs st = {}"
  shows "OnceExit st t = expand (map_of (webpRules st)) (map_of (noWebpRules st)) t"
proof -
  have c: "clear_of k (map_of (noWebpRules st))" "clear_of k (map_of (webpRules st))"
    if "k \<in> state_keys st" for k
    using that assms(4)
    by (auto intro!: clear_of_map_of simp: state_keys_def variant_refs_def)
  have e: "clear_of k (\<lambda>_. None)" for k by (simp add: clear_of_def)
  have v: "k \<notin> set (refs_of [v])"
    if "k \<in> state_keys st" "v \<in> snd ` set (noWebpRules st) \<union> snd ` set (webpRules st)" for k v
    using that assms(4) by (auto simp: variant_refs_def)
  have "foldl (\<lambda>r (rule, x). after rule x r) (expand (\<lambda>_. None) (\<lambda>_. None) t) (noWebpRules st)
          = expand (\<lambda>_. None) (Map.empty ++ map_of (noWebpRules st)) t"
    using e v by (intro fold_after_no_webp assms) (auto simp: state_keys_def)
  then have 1: "foldl (\<lambda>r (rule, x). after rule x r) t (noWebpRules st)
          = expand (\<lambda>_. None) (map_of (noWebpRules st)) t"
    by (simp add: expand_empty)
  have "foldl (\<lambda>r (rule, x). after rule x r) (expand (\<lambda>_. None) (map_of (noWebpRules st)) t)
            (webpRules st)
          = expand (Map.empty ++ map_of (webpRules st)) (map_of (noWebpRules st)) t"
    using e c v by (intro fold_after_webp assms) (auto simp: state_keys_def)
  with 1 show ?thesis by (simp add: OnceExit_def)
qed

section \<open>Invariants of the walk\<close>

lemma visit_Rule_unchanged:
  "skipped opts sel \<or> matched_decls opts kids = []
     \<Longrightarrow> visit_Rule opts (Rule j sel kids) st = (Rule j sel kids, st)"
  unfolding skipped_def matched_decls_def
  using visit_Rule_skip visit_Rule_no_match by blast

lemma visit_Rule_match:
  "\<not> skipped opts sel \<Longrightarrow> matched_decls opts kids \<noteq> []
     \<Longrightarrow> visit_Rule opts (Rule j sel kids) st =
           (Rule j sel (remove_decls (predicate opts) kids),
            record_variants opts j (comma sel) (matched_decls opts kids) st)"
  by (simp add: visit_Rule.simps skipped_def matched_decls_def record_variants_def
      fallback_rule_def capable_rule_def Let_def)

lemma walk_induct [case_names Nil Decl Comment AtRule Rule]:
  assumes "\<And>st. P [] st"
    and "\<And>d ns st. (\<And>st'. P ns st') \<Longrightarrow> P (Decl d # ns) st"
    and "\<And>c ns st. (\<And>st'. P ns st') \<Longrightarrow> P (Comment c # ns) st"
    and "\<And>name params kids ns st.
          (\<And>st'. P kids st') \<Longrightarrow> (\<And>st'. P ns st') \<Longrightarrow> P (AtRule name params kids # ns) st"
    and "\<And>j sel kids ns st.
          (\<And>st'. P kids st') \<Longrightarrow> (\<And>st'. P (remove_decls p kids) st') \<Longrightarrow> (\<And>st'. P ns st')
            \<Longrightarrow> P (Rule j sel kids # ns) st"
  shows "P t st"
proof (induction t arbitrary: st rule: measure_induct_rule [where f = "size_list size"])
  case (less t)
  show ?case
  proof (cases t)
    case Nil
    then show ?thesis using assms(1) by simp
  next
    case (Cons n ns)
    have ns: "P ns st'" for st' using less [of ns] Cons by simp
    show ?thesis
    proof (cases n)
      case (Decl d)
      with Cons assms(2) ns show ?thesis by simp
    next
      case (Rule j sel kids)
      have "P kids st'" for st' using less [of kids] Cons Rule by simp
      moreover have "P (remove_decls p kids) st'" for st'
        using less [of "remove_decls p kids"] Cons Rule size_remove_decls [of p kids]
        by simp
      ultimately show ?thesis using Cons Rule assms(5) ns by simp
    next
      case (AtRule name params kids)
      have "P kids st'" for st' using less [of kids] Cons AtRule by simp
      with Cons AtRule assms(4) ns show ?thesis by simp
    next
      case (Comment c)
      with Cons assms(3) ns show ?thesis by simp
    qed
  qed
qed

lemma walk_Rule_unchanged:
  "skipped opts sel \<or> matched_decls opts kids = []
     \<Longrightarrow> walk opts (Rule j sel kids # ns) st =
           (let (kids', st2) = walk opts kids st;
                (ns', st3) = walk opts ns st2
            in (Rule j sel kids' # ns', st3))"
  by (simp add: visit_Rule_unchanged)

lemma decls_of_no_match_sub:
  "matched_decls opts (remove_decls (predicate opts) kids) = []"
  by (simp add: matched_decls_def decls_of_remove_decls)

lemma filter_append_Nil: "filter p (a @ b) = [] \<longleftrightarrow> filter p a = [] \<and> filter p b = []"
  by simp

lemma walk_no_match: "matched_decls opts t = [] \<Longrightarrow> walk opts t st = (t, st)"
proof (induction t st rule: walk_induct [where p = "predicate opts"])
  case (Rule j sel kids ns st)
  then have k: "matched_decls opts kids = []" and n: "matched_decls opts ns = []"
    by (auto simp: matched_decls_def)
  with Rule.IH(1) [OF k] Rule.IH(3) [OF n] walk_Rule_unchanged [of opts sel kids j ns st]
  show ?case by simp
qed (auto simp: matched_decls_def split: if_splits)

lemma walk_Rule_match:
  assumes "\<not> skipped opts sel" "matched_decls opts kids \<noteq> []"
  shows "walk opts (Rule j sel kids # ns) st =
           (let (ns', st3) = walk opts ns (record_variants opts j (comma sel) (matched_decls opts kids) st)
            in (Rule j sel (remove_decls (predicate opts) kids) # ns', st3))"
  using assms
  by (simp add: visit_Rule_match walk_no_match [OF decls_of_no_match_sub])

lemma walk_Rule_elim:
  assumes "walk opts (Rule j sel kids # ns) st = (t', st')"
  obtains (unchanged) kids' st2 ns' where
      "skipped opts sel \<or> matched_decls opts kids = []"
      "walk opts kids st = (kids', st2)" "walk opts ns st2 = (ns', st')"
      "t' = Rule j sel kids' # ns'"
  | (match) ns' where
      "\<not> skipped opts sel" "matched_decls opts kids \<noteq> []"
      "walk opts ns (record_variants opts j (comma sel) (matched_decls opts kids) st) = (ns', st')"
      "t' = Rule j sel (remove_decls (predicate opts) kids) # ns'"
proof (cases "skipped opts sel \<or> matched_decls opts kids = []")
  case True
  obtain kids' st2 where k: "walk opts kids st = (kids', st2)" by (cases "walk opts kids st")
  obtain ns' st3 where n: "walk opts ns st2 = (ns', st3)" by (cases "walk opts ns st2")
  from walk_Rule_unchanged [OF True, of j ns st] k n assms
  have "t' = Rule j sel kids' # ns'" "st' = st3" by simp_all
  with True k n unchanged show ?thesis by blast
next
  case False
  obtain ns' st3
    where n: "walk opts ns (record_variants opts j (comma sel) (matched_decls opts kids) st) = (ns', st3)"
    by (cases "walk opts ns (record_variants opts j (comma sel) (matched_decls opts kids) st)")
  from False walk_Rule_match [of opts sel kids j ns st] n assms
  have "t' = Rule j sel (remove_decls (predicate opts) kids) # ns'" "st' = st3"
    by simp_all
  with False n match show ?thesis by blast
qed

lemma walk_AtRule_elim:
  assumes "walk opts (AtRule name params kids # ns) st = (t', st')"
  obtains kids' st2 ns' where
      "walk opts kids st = (kids', st2)" "walk opts ns st2 = (ns', st')"
      "t' = AtRule name params kids' # ns'"
  using assms by (auto split: prod.splits)

lemma walk_Decl_elim:
  assumes "walk opts (Decl d # ns) st = (t', st')"
  obtains ns' where "walk opts ns st = (ns', st')" "t' = Decl d # ns'"
  using assms by (auto split: prod.splits)

lemma walk_Comment_elim:
  assumes "walk opts (Comment c # ns) st = (t', st')"
  obtains ns' where "walk opts ns st = (ns', st')" "t' = Comment c # ns'"
  using assms by (auto split: prod.splits)

lemma refs_of_remove_decls: "refs_of (remove_decls p t) = refs_of t"
  by (induction p t rule: remove_decls.induct) auto

lemma walk_refs: "walk opts t st = (t', st') \<Longrightarrow> refs_of t' = refs_of t"
proof (induction t st arbitrary: t' st' rule: walk_induct [where p = "predicate opts"])
  case (Rule j sel kids ns st)
  from Rule.prems show ?case
  proof (cases rule: walk_Rule_elim)
    case (unchanged kids' st2 ns')
    with Rule.IH(1) Rule.IH(3) show ?thesis by simp
  next
    case (match ns')
    with Rule.IH(3) show ?thesis by (simp add: refs_of_remove_decls)
  qed
next
  case (AtRule name params kids ns st)
  from AtRule.prems show ?case
    by (cases rule: walk_AtRule_elim) (use AtRule.IH in simp)
next
  case (Decl d ns st)
  from Decl.prems show ?case
    by (cases rule: walk_Decl_elim) (use Decl.IH in simp)
next
  case (Comment c ns st)
  from Comment.prems show ?case
    by (cases rule: walk_Comment_elim) (use Comment.IH in simp)
qed simp

lemma state_keys_record:
  "state_keys (record_variants opts j sels m st) = insert j (state_keys st)"
  by (simp add: state_keys_def record_variants_def AList.dom_update)

lemma walk_keys:
  "walk opts t st = (t', st') \<Longrightarrow> state_keys st' \<subseteq> state_keys st \<union> set (refs_of t)"
proof (induction t st arbitrary: t' st' rule: walk_induct [where p = "predicate opts"])
  case (Rule j sel kids ns st)
  from Rule.prems show ?case
  proof (cases rule: walk_Rule_elim)
    case (unchanged kids' st2 ns')
    with Rule.IH(1) [of st kids' st2] Rule.IH(3) [of st2 ns' st'] show ?thesis by auto
  next
    case (match ns')
    with Rule.IH(3) [OF match(3)] show ?thesis by (auto simp: state_keys_record)
  qed
next
  case (AtRule name params kids ns st)
  from AtRule.prems show ?case
  proof (cases rule: walk_AtRule_elim)
    case (1 kids' st2 ns')
    with AtRule.IH(1) [of st kids' st2] AtRule.IH(2) [of st2 ns' st'] show ?thesis by auto
  qed
next
  case (Decl d ns st)
  from Decl.prems show ?case
    by (cases rule: walk_Decl_elim) (use Decl.IH in auto)
next
  case (Comment c ns st)
  from Comment.prems show ?case
    by (cases rule: walk_Comment_elim) (use Comment.IH in auto)
qed simp

lemma siblings_from_absent: "ref \<notin> set (refs_of t) \<Longrightarrow> siblings_from ref t = None"
  by (induction ref t rule: siblings_from.induct) auto

lemma siblings_from_append:
  "ref \<notin> set (refs_of a) \<Longrightarrow> siblings_from ref (a @ b) = siblings_from ref b"
  by (induction ref a rule: siblings_from.induct) (auto simp: siblings_from_absent)

lemma refs_of_expand_absent:
  "clear_of ref w \<Longrightarrow> clear_of ref nw \<Longrightarrow> ref \<notin> set (refs_of t)
     \<Longrightarrow> ref \<notin> set (refs_of (expand w nw t))"
proof (induction t rule: refs_of.induct)
  case (3 j sel kids ns)
  then show ?case
    using clear_of_opt [of ref w j] clear_of_opt [of ref nw j]
    by (simp add: refs_of_append)
qed auto

lemma siblings_from_expand:
  assumes "clear_of ref w" "clear_of ref nw"
  shows "ref \<in> set (refs_of t) \<Longrightarrow>
     \<exists>sel kids rest. siblings_from ref (expand w nw t)
        = Some (Rule ref sel kids # opt_list (w ref) @ opt_list (nw ref) @ rest)"
proof (induction t rule: refs_of.induct)
  case (3 j sel kids ns)
  show ?case
  proof (cases "j = ref")
    case True
    then show ?thesis by simp
  next
    case False
    have v: "ref \<notin> set (refs_of (opt_list (w j) @ opt_list (nw j)))"
      using clear_of_opt [OF assms(1)] clear_of_opt [OF assms(2)] by (simp add: refs_of_append)
    have a: "siblings_from ref (opt_list (w j) @ opt_list (nw j) @ expand w nw ns)
          = siblings_from ref (expand w nw ns)"
      using siblings_from_append [OF v] by simp
    show ?thesis
    proof (cases "ref \<in> set (refs_of kids)")
      case True
      from "3.IH"(1) [OF True] False show ?thesis by auto
    next
      case nk: False
      with "3.prems" False have "ref \<in> set (refs_of ns)" by simp
      from "3.IH"(2) [OF this] obtain sel' kids' rest
        where "siblings_from ref (expand w nw ns)
                 = Some (Rule ref sel' kids' # opt_list (w ref) @ opt_list (nw ref) @ rest)"
        by blast
      moreover have "siblings_from ref (expand w nw kids) = None"
        using refs_of_expand_absent [OF assms nk] by (rule siblings_from_absent)
      ultimately show ?thesis using False a by simp
    qed
  qed
next
  case (4 name params kids ns)
  show ?case
  proof (cases "ref \<in> set (refs_of kids)")
    case True
    from "4.IH"(1) [OF True] show ?thesis by auto
  next
    case nk: False
    with "4.prems" have "ref \<in> set (refs_of ns)" by simp
    from "4.IH"(2) [OF this] obtain sel' kids' rest
      where "siblings_from ref (expand w nw ns)
               = Some (Rule ref sel' kids' # opt_list (w ref) @ opt_list (nw ref) @ rest)"
      by blast
    moreover have "siblings_from ref (expand w nw kids) = None"
      using refs_of_expand_absent [OF assms nk] by (rule siblings_from_absent)
    ultimately show ?thesis by simp
  qed
qed auto

lemma refs_of_Decls: "refs_of (map Decl ds) = []"
  by (induction ds) auto

lemma refs_of_Decls_comp: "refs_of (map (Decl \<circ> f) ds) = []"
  by (induction ds) auto

lemma refs_of_new_Rule: "refs_of [new_Rule r sels ds] = [r]"
  by (simp add: new_Rule_def refs_of_Decls)

lemma refs_of_fallback_rule: "refs_of [fallback_rule opts r sels m] = [r]"
  by (simp add: fallback_rule_def new_Rule_def refs_of_Decls_comp Let_def)

lemma refs_of_capable_rule: "refs_of [capable_rule opts r sels m] = [r]"
  by (simp add: capable_rule_def refs_of_new_Rule)

lemma set_update_subset: "set (AList.update k v al) \<subseteq> insert (k, v) (set al)"
  by (induction al) auto

lemma variant_refs_record:
  "variant_refs (record_variants opts j sels m st)
     \<subseteq> variant_refs st \<union> {next_ref st, Suc (next_ref st)}"
proof
  fix r
  assume "r \<in> variant_refs (record_variants opts j sels m st)"
  then obtain v where v: "r \<in> set (refs_of [v])"
    and "v \<in> snd ` set (AList.update j (fallback_rule opts (next_ref st) sels m) (noWebpRules st))
         \<or> v \<in> snd ` set (AList.update j (capable_rule opts (Suc (next_ref st)) sels m) (webpRules st))"
    by (auto simp: variant_refs_def record_variants_def)
  then consider "v = fallback_rule opts (next_ref st) sels m"
    | "v = capable_rule opts (Suc (next_ref st)) sels m"
    | "v \<in> snd ` set (noWebpRules st) \<union> snd ` set (webpRules st)"
    using set_update_subset by fastforce
  then show "r \<in> variant_refs st \<union> {next_ref st, Suc (next_ref st)}"
  proof cases
    case 1
    with v show ?thesis by (simp add: refs_of_fallback_rule)
  next
    case 2
    with v show ?thesis by (simp add: refs_of_capable_rule)
  next
    case 3
    with v show ?thesis by (auto simp: variant_refs_def)
  qed
qed

lemma state_ok_record: "state_ok n st \<Longrightarrow> state_ok n (record_variants opts j sels m st)"
proof -
  assume a: "state_ok n st"
  then have "\<forall>r \<in> variant_refs (record_variants opts j sels m st). n \<le> r"
    using variant_refs_record [of opts j sels m st] by (fastforce simp: state_ok_def)
  with a show ?thesis
    by (simp add: state_ok_def record_variants_def distinct_update)
qed

lemma walk_state_ok: "walk opts t st = (t', st') \<Longrightarrow> state_ok n st \<Longrightarrow> state_ok n st'"
proof (induction t st arbitrary: t' st' rule: walk_induct [where p = "predicate opts"])
  case (Rule j sel kids ns st)
  from Rule.prems(1) show ?case
  proof (cases rule: walk_Rule_elim)
    case (unchanged kids' st2 ns')
    with Rule.IH(1) [of st kids' st2] Rule.IH(3) [of st2 ns' st'] Rule.prems(2)
    show ?thesis by blast
  next
    case (match ns')
    with Rule.IH(3) [OF match(3)] state_ok_record [OF Rule.prems(2)] show ?thesis by blast
  qed
next
  case (AtRule name params kids ns st)
  from AtRule.prems(1) show ?case
  proof (cases rule: walk_AtRule_elim)
    case (1 kids' st2 ns')
    with AtRule.IH(1) [of st kids' st2] AtRule.IH(2) [of st2 ns' st'] AtRule.prems(2)
    show ?thesis by blast
  qed
next
  case (Decl d ns st)
  from Decl.prems(1) show ?case
    by (cases rule: walk_Decl_elim) (use Decl.IH Decl.prems(2) in blast)
next
  case (Comment c ns st)
  from Comment.prems(1) show ?case
    by (cases rule: walk_Comment_elim) (use Comment.IH Comment.prems(2) in blast)
qed simp

lemma state_ok_init: "state_ok n (init_state n)"
  by (simp add: state_ok_def init_state_def variant_refs_def)

lemma state_keys_init: "state_keys (init_state n) = {}"
  by (simp add: state_keys_def init_state_def)

lemma walk_OnceExit_expand:
  assumes "distinct (refs_of root)" "\<forall>r \<in> set (refs_of root). r < n"
    and "walk opts root (init_state n) = (root', st)"
  shows "OnceExit st root' = expand (map_of (webpRules st)) (map_of (noWebpRules st)) root'"
    and "state_keys st \<inter> variant_refs st = {}"
proof -
  from walk_state_ok [OF assms(3) state_ok_init] have ok: "state_ok n st" .
  from walk_keys [OF assms(3)] have "state_keys st \<subseteq> set (refs_of root)"
    by (simp add: state_keys_init)
  with assms(2) ok show d: "state_keys st \<inter> variant_refs st = {}"
    by (fastforce simp: state_ok_def)
  from walk_refs [OF assms(3)] assms(1) have "distinct (refs_of root')" by simp
  with ok d show "OnceExit st root' = expand (map_of (webpRules st)) (map_of (noWebpRules st)) root'"
    by (intro OnceExit_expand) (auto simp: state_ok_def)
qed

lemma matched_decls_simps:
  "matched_decls opts [] = []"
  "matched_decls opts (Decl d # ns) =
     (if predicate opts d then d # matched_decls opts ns else matched_decls opts ns)"
  "matched_decls opts (Comment c # ns) = matched_decls opts ns"
  "matched_decls opts (AtRule name params kids # ns) = matched_decls opts kids @ matched_decls opts ns"
  "matched_decls opts (Rule j sel kids # ns) = matched_decls opts kids @ matched_decls opts ns"
  by (simp_all add: matched_decls_def)

lemma matched_decls_append: "matched_decls opts (a @ b) = matched_decls opts a @ matched_decls opts b"
  by (induction a rule: refs_of.induct) (auto simp: matched_decls_simps)

lemma no_match_settled: "matched_decls opts t = [] \<Longrightarrow> settled opts t"
  by (induction opts t rule: settled.induct) (auto simp: matched_decls_simps split: if_splits)

lemma settled_append: "settled opts (a @ b) \<longleftrightarrow> settled opts a \<and> settled opts b"
  by (induction opts a rule: settled.induct) auto

lemma walk_settled_id: "settled opts t \<Longrightarrow> walk opts t st = (t, st)"
proof (induction t st rule: walk_induct [where p = "predicate opts"])
  case (Rule j sel kids ns st)
  then have s: "skipped opts sel \<or> matched_decls opts kids = []"
    and "settled opts kids" "settled opts ns" by auto
  with Rule.IH(1) Rule.IH(3) walk_Rule_unchanged [OF s, of j ns st]
  show ?case by simp
qed auto

lemma walk_settles: "walk opts t st = (t', st') \<Longrightarrow> settled opts t'"
proof (induction t st arbitrary: t' st' rule: walk_induct [where p = "predicate opts"])
  case (Rule j sel kids ns st)
  from Rule.prems show ?case
  proof (cases rule: walk_Rule_elim)
    case (unchanged kids' st2 ns')
    from unchanged(1) have "skipped opts sel \<or> matched_decls opts kids' = []"
    proof
      assume "matched_decls opts kids = []"
      from walk_no_match [OF this, of st] unchanged(2) show ?thesis
        using \<open>matched_decls opts kids = []\<close> by simp
    qed simp
    with unchanged Rule.IH(1) [of st kids' st2] Rule.IH(3) [of st2 ns' st'] show ?thesis
      by simp
  next
    case (match ns')
    with Rule.IH(3) [OF match(3)] show ?thesis
      by (simp add: decls_of_no_match_sub no_match_settled)
  qed
next
  case (AtRule name params kids ns st)
  from AtRule.prems show ?case
  proof (cases rule: walk_AtRule_elim)
    case (1 kids' st2 ns')
    with AtRule.IH(1) [of st kids' st2] AtRule.IH(2) [of st2 ns' st'] show ?thesis by simp
  qed
next
  case (Decl d ns st)
  from Decl.prems show ?case
    by (cases rule: walk_Decl_elim) (use Decl.IH in auto)
next
  case (Comment c ns st)
  from Comment.prems show ?case
    by (cases rule: walk_Comment_elim) (use Comment.IH in auto)
qed simp

lemma guarded_cong:
  "K \<inter> set (refs_of t) = K' \<inter> set (refs_of t) \<Longrightarrow> guarded opts K t = guarded opts K' t"
proof (induction opts K t rule: guarded.induct)
  case (5 opts K j sel kids ns)
  then have "K \<inter> set (refs_of kids) = K' \<inter> set (refs_of kids)"
    and "K \<inter> set (refs_of ns) = K' \<inter> set (refs_of ns)"
    by auto
  with "5.IH" show ?case by (simp add: Int_commute)
next
  case (4 opts K name params kids ns)
  then have "K \<inter> set (refs_of kids) = K' \<inter> set (refs_of kids)"
    and "K \<inter> set (refs_of ns) = K' \<inter> set (refs_of ns)"
    by auto
  with "4.IH" show ?case by simp
qed auto

lemma guarded_none: "K \<inter> set (refs_of t) = {} \<Longrightarrow> guarded opts K t"
proof (induction opts K t rule: guarded.induct)
  case (5 opts K j sel kids ns)
  then have "K \<inter> set (refs_of kids) = {}" "K \<inter> set (refs_of ns) = {}" by auto
  with "5.IH" show ?case by (simp add: Int_commute)
next
  case (4 opts K name params kids ns)
  then have "K \<inter> set (refs_of kids) = {}" "K \<inter> set (refs_of ns) = {}" by auto
  with "4.IH" show ?case by simp
qed auto

lemma walk_keys_mono: "walk opts t st = (t', st') \<Longrightarrow> state_keys st \<subseteq> state_keys st'"
proof (induction t st arbitrary: t' st' rule: walk_induct [where p = "predicate opts"])
  case (Rule j sel kids ns st)
  from Rule.prems show ?case
  proof (cases rule: walk_Rule_elim)
    case (unchanged kids' st2 ns')
    with Rule.IH(1) [of st kids' st2] Rule.IH(3) [of st2 ns' st'] show ?thesis by blast
  next
    case (match ns')
    with Rule.IH(3) [OF match(3)] show ?thesis by (auto simp: state_keys_record)
  qed
next
  case (AtRule name params kids ns st)
  from AtRule.prems show ?case
  proof (cases rule: walk_AtRule_elim)
    case (1 kids' st2 ns')
    with AtRule.IH(1) [of st kids' st2] AtRule.IH(2) [of st2 ns' st'] show ?thesis by blast
  qed
next
  case (Decl d ns st)
  from Decl.prems show ?case
    by (cases rule: walk_Decl_elim) (use Decl.IH in auto)
next
  case (Comment c ns st)
  from Comment.prems show ?case
    by (cases rule: walk_Comment_elim) (use Comment.IH in auto)
qed simp

lemma walk_guarded:
  "walk opts t st = (t', st') \<Longrightarrow> distinct (refs_of t) \<Longrightarrow> state_keys st \<inter> set (refs_of t) = {}
     \<Longrightarrow> guarded opts (state_keys st') t'"
proof (induction t st arbitrary: t' st' rule: walk_induct [where p = "predicate opts"])
  case (Rule j sel kids ns st)
  from Rule.prems(2) have dk: "distinct (refs_of kids)" and dn: "distinct (refs_of ns)"
    and jk: "j \<notin> set (refs_of kids)" and jn: "j \<notin> set (refs_of ns)"
    and kn: "set (refs_of kids) \<inter> set (refs_of ns) = {}"
    by auto
  from Rule.prems(3) have sk: "state_keys st \<inter> set (refs_of kids) = {}"
    and sn: "state_keys st \<inter> set (refs_of ns) = {}" and sj: "j \<notin> state_keys st"
    by auto
  from Rule.prems(1) show ?case
  proof (cases rule: walk_Rule_elim)
    case (unchanged kids' st2 ns')
    note rk = walk_refs [OF unchanged(2)]
    from walk_keys [OF unchanged(2)] have k2: "state_keys st2 \<subseteq> state_keys st \<union> set (refs_of kids)" .
    from walk_keys [OF unchanged(3)] have k3: "state_keys st' \<subseteq> state_keys st2 \<union> set (refs_of ns)" .
    from walk_keys_mono [OF unchanged(3)] have m3: "state_keys st2 \<subseteq> state_keys st'" .
    from k2 sn kn have p3: "state_keys st2 \<inter> set (refs_of ns) = {}" by blast
    from Rule.IH(3) [OF unchanged(3) dn p3] have gn: "guarded opts (state_keys st') ns'" .
    from Rule.IH(1) [OF unchanged(2) dk sk] have "guarded opts (state_keys st2) kids'" .
    moreover have "state_keys st' \<inter> set (refs_of kids') = state_keys st2 \<inter> set (refs_of kids')"
      unfolding rk using k3 m3 kn by blast
    ultimately have gk: "guarded opts (state_keys st') kids'"
      using guarded_cong by blast
    have "skipped opts sel \<or> set (refs_of kids') \<inter> state_keys st' = {}"
    proof (cases "skipped opts sel")
      case False
      with unchanged(1) have "matched_decls opts kids = []" by simp
      from walk_no_match [OF this, of st] unchanged(2) have "st2 = st" by simp
      with k3 have "state_keys st' \<subseteq> state_keys st \<union> set (refs_of ns)" by simp
      with sk kn show ?thesis unfolding rk by blast
    qed simp
    with gk gn unchanged(4) show ?thesis by simp
  next
    case (match ns')
    let ?st1 = "record_variants opts j (comma sel) (matched_decls opts kids) st"
    have p3: "state_keys ?st1 \<inter> set (refs_of ns) = {}"
      using sn jn by (simp add: state_keys_record)
    from Rule.IH(3) [OF match(3) dn p3] have gn: "guarded opts (state_keys st') ns'" .
    from walk_keys [OF match(3)] have "state_keys st' \<subseteq> insert j (state_keys st) \<union> set (refs_of ns)"
      by (simp add: state_keys_record)
    with sk jk kn have e: "state_keys st' \<inter> set (refs_of (remove_decls (predicate opts) kids)) = {}"
      unfolding refs_of_remove_decls by blast
    from guarded_none [OF e] e gn match(4) show ?thesis by (simp add: Int_commute)
  qed
next
  case (AtRule name params kids ns st)
  from AtRule.prems(2) have dk: "distinct (refs_of kids)" and dn: "distinct (refs_of ns)"
    and kn: "set (refs_of kids) \<inter> set (refs_of ns) = {}"
    by auto
  from AtRule.prems(3) have sk: "state_keys st \<inter> set (refs_of kids) = {}"
    and sn: "state_keys st \<inter> set (refs_of ns) = {}"
    by auto
  from AtRule.prems(1) show ?case
  proof (cases rule: walk_AtRule_elim)
    case (1 kids' st2 ns')
    note rk = walk_refs [OF 1(1)]
    from walk_keys [OF 1(1)] have k2: "state_keys st2 \<subseteq> state_keys st \<union> set (refs_of kids)" .
    from walk_keys [OF 1(2)] have k3: "state_keys st' \<subseteq> state_keys st2 \<union> set (refs_of ns)" .
    from walk_keys_mono [OF 1(2)] have m3: "state_keys st2 \<subseteq> state_keys st'" .
    from k2 sn kn have p3: "state_keys st2 \<inter> set (refs_of ns) = {}" by blast
    from AtRule.IH(2) [OF 1(2) dn p3] have gn: "guarded opts (state_keys st') ns'" .
    from AtRule.IH(1) [OF 1(1) dk sk] have "guarded opts (state_keys st2) kids'" .
    moreover have "state_keys st' \<inter> set (refs_of kids') = state_keys st2 \<inter> set (refs_of kids')"
      unfolding rk using k3 m3 kn by blast
    ultimately have gk: "guarded opts (state_keys st') kids'"
      using guarded_cong by blast
    with gn 1(3) show ?thesis by simp
  qed
next
  case (Decl d ns st)
  from Decl.prems(1) show ?case
    by (cases rule: walk_Decl_elim) (use Decl.IH Decl.prems in auto)
next
  case (Comment c ns st)
  from Comment.prems(1) show ?case
    by (cases rule: walk_Comment_elim) (use Comment.IH Comment.prems in auto)
qed simp

lemma expand_settled:
  assumes "\<forall>i. i \<notin> K \<longrightarrow> w i = None \<and> nw i = None"
    and "\<forall>i v. w i = Some v \<or> nw i = Some v \<longrightarrow> settled opts [v]"
  shows "settled opts t \<Longrightarrow> guarded opts K t \<Longrightarrow> settled opts (expand w nw t)"
proof (induction t rule: refs_of.induct)
  case (3 j sel kids ns)
  from "3.prems"(1) have sk: "settled opts kids" and sn: "settled opts ns"
    and c: "skipped opts sel \<or> matched_decls opts kids = []" by simp_all
  from "3.prems"(2) have gk: "guarded opts K kids" and gn: "guarded opts K ns"
    and g: "skipped opts sel \<or> set (refs_of kids) \<inter> K = {}" by simp_all
  from "3.IH"(1) [OF sk gk] have k: "settled opts (expand w nw kids)" .
  from "3.IH"(2) [OF sn gn] have n: "settled opts (expand w nw ns)" .
  have vw: "settled opts (opt_list (w j))"
    using assms(2) by (cases "w j") auto
  have vn: "settled opts (opt_list (nw j))"
    using assms(2) by (cases "nw j") auto
  have m: "skipped opts sel \<or> matched_decls opts (expand w nw kids) = []"
  proof (cases "skipped opts sel")
    case False
    with c g have m: "matched_decls opts kids = []"
      and d: "set (refs_of kids) \<inter> K = {}" by simp_all
    have "w i = None \<and> nw i = None" if "i \<in> set (refs_of kids)" for i
      using that d assms(1) by blast
    then have "expand w nw kids = expand (\<lambda>_. None) (\<lambda>_. None) kids"
      by (intro expand_cong) simp
    with m show ?thesis by (simp add: expand_empty)
  qed simp
  from vw vn n have "settled opts (opt_list (w j) @ opt_list (nw j) @ expand w nw ns)"
    by (simp only: settled_append)
  with m k show ?case by simp
next
  case (4 name params kids ns)
  then show ?case by simp
qed simp_all

lemma join_first: "\<exists>r. join sep (x # xs) = x @ r"
  by (cases xs) auto

lemma str_includes_append_left: "str_includes x p \<Longrightarrow> str_includes (x @ r) p"
  unfolding str_includes_iff by (metis append.assoc)

lemma marker_token_includes:
  "str_includes (''html'' @ marker_token opts c) (''.'' @ c)"
proof (cases "modules opts")
  case True
  have "str_includes (''html:global('' @ (''.'' @ c) @ '')'') (''.'' @ c)"
    by (rule str_includes_mid)
  with True show ?thesis by (simp add: marker_token_def)
next
  case False
  have "str_includes (''html'' @ (''.'' @ c) @ []) (''.'' @ c)"
    by (rule str_includes_mid)
  with False show ?thesis by (simp add: marker_token_def)
qed

lemma transformSelectors_skipped:
  assumes "CHR ''$'' \<notin> set (noWebpClass opts)" "sels \<noteq> []"
  shows "skipped opts (join sep (transformSelectors opts sels (noWebpClass opts) @ extra))"
proof -
  from assms(2) obtain s ss where s: "sels = s # ss" by (cases sels) auto
  let ?x = "transformSelector (marker_token opts (noWebpClass opts)) s"
  from transformSelector_includes [OF dollar_marker_token [OF assms(1)]]
  have "str_includes ?x (''html'' @ marker_token opts (noWebpClass opts))" .
  from str_includes_trans [OF this marker_token_includes]
  have i: "str_includes ?x (''.'' @ noWebpClass opts)" .
  from s obtain rest
    where "transformSelectors opts sels (noWebpClass opts) @ extra = ?x # rest"
    by (simp add: transformSelectors_def)
  moreover obtain r where "join sep (?x # rest) = ?x @ r" using join_first by blast
  ultimately show ?thesis
    using str_includes_append_left [OF i] by (simp add: skipped_def)
qed

lemma settled_Decls: "settled opts (map (Decl \<circ> f) ds)"
  by (induction ds) auto

lemma fallback_settled:
  assumes "CHR ''$'' \<notin> set (noWebpClass opts)" "sels \<noteq> []" "marker_kept opts"
  shows "settled opts [fallback_rule opts r sels m]"
proof -
  let ?F = "transformSelectors opts sels (noWebpClass opts)"
  let ?p = "''.'' @ noWebpClass opts"
  from transformSelectors_skipped [OF assms(1,2), of "'', ''" "[]"]
  have f: "str_includes (join '', '' ?F) ?p" by (simp add: skipped_def)
  show ?thesis
  proof (cases "addNoJs opts")
    case False
    with f show ?thesis
      by (simp add: fallback_rule_def new_Rule_def Let_def settled_Decls skipped_def)
  next
    case True
    with assms(3) have "CHR '','' \<notin> set ?p" "\<not> is_space (last ?p)"
      by (simp_all add: marker_kept_def)
    moreover have "?p \<noteq> []" "\<not> is_space (hd ?p)" by (simp_all add: is_space_simps)
    ultimately obtain x where "x \<in> set (comma (join '', '' ?F))" "str_includes x ?p"
      using comma_includes [OF f] by blast
    then have "str_includes (join sep (comma (join '', '' ?F) @ extra)) ?p" for sep extra
      by (intro join_includes [of x]) simp_all
    with True show ?thesis
      by (simp add: fallback_rule_def new_Rule_def Let_def settled_Decls skipped_def)
  qed
qed

lemma capable_settled:
  assumes "predicate opts = default_predicate" "rename opts = default_rename"
  shows "settled opts [capable_rule opts r sels m]"
proof -
  have "matched_decls opts (map (Decl \<circ> (\<lambda>d. new_decl (decl_prop d) (rename opts d))) m) = []"
    using assms
    by (induction m)
       (simp_all add: matched_decls_simps default_predicate_def new_decl_def
          default_rename_no_extension)
  then show ?thesis
    by (simp add: capable_rule_def new_Rule_def settled_Decls)
qed

lemma variants_settled_record:
  assumes "default_renaming opts" "sels \<noteq> []" "variants_settled opts st" "marker_kept opts"
  shows "variants_settled opts (record_variants opts j sels m st)"
  unfolding variants_settled_def
proof
  fix v
  assume "v \<in> snd ` set (noWebpRules (record_variants opts j sels m st))
            \<union> snd ` set (webpRules (record_variants opts j sels m st))"
  then have "v \<in> snd ` set (AList.update j (fallback_rule opts (next_ref st) sels m) (noWebpRules st))
         \<or> v \<in> snd ` set (AList.update j (capable_rule opts (Suc (next_ref st)) sels m) (webpRules st))"
    by (auto simp: record_variants_def)
  then consider "v = fallback_rule opts (next_ref st) sels m"
    | "v = capable_rule opts (Suc (next_ref st)) sels m"
    | "v \<in> snd ` set (noWebpRules st) \<union> snd ` set (webpRules st)"
    using set_update_subset by fastforce
  then show "settled opts [v]"
  proof cases
    case 1
    with assms(1,2,4) show ?thesis by (simp add: fallback_settled default_renaming_def)
  next
    case 2
    with assms(1) show ?thesis by (simp add: capable_settled default_renaming_def)
  next
    case 3
    with assms(3) show ?thesis by (simp add: variants_settled_def)
  qed
qed

lemma walk_variants_settled:
  "walk opts t st = (t', st') \<Longrightarrow> default_renaming opts \<Longrightarrow> marker_kept opts
     \<Longrightarrow> variants_settled opts st \<Longrightarrow> variants_settled opts st'"
proof (induction t st arbitrary: t' st' rule: walk_induct [where p = "predicate opts"])
  case (Rule j sel kids ns st)
  from Rule.prems(1) show ?case
  proof (cases rule: walk_Rule_elim)
    case (unchanged kids' st2 ns')
    from Rule.IH(1) [OF unchanged(2) Rule.prems(2,3,4)]
    have "variants_settled opts st2" .
    from Rule.IH(3) [OF unchanged(3) Rule.prems(2,3) this] show ?thesis .
  next
    case (match ns')
    from variants_settled_record [OF Rule.prems(2) comma_not_Nil Rule.prems(4,3)]
    have "variants_settled opts (record_variants opts j (comma sel) (matched_decls opts kids) st)" .
    from Rule.IH(3) [OF match(3) Rule.prems(2,3) this] show ?thesis .
  qed
next
  case (AtRule name params kids ns st)
  from AtRule.prems(1) show ?case
  proof (cases rule: walk_AtRule_elim)
    case (1 kids' st2 ns')
    from AtRule.IH(1) [OF 1(1) AtRule.prems(2,3,4)]
    have "variants_settled opts st2" .
    from AtRule.IH(2) [OF 1(2) AtRule.prems(2,3) this] show ?thesis .
  qed
next
  case (Decl d ns st)
  from Decl.prems(1) show ?case
    by (cases rule: walk_Decl_elim) (use Decl.IH Decl.prems in auto)
next
  case (Comment c ns st)
  from Comment.prems(1) show ?case
    by (cases rule: walk_Comment_elim) (use Comment.IH Comment.prems in auto)
qed simp

lemma process_settled:
  assumes "default_renaming opts"
    and "distinct (refs_of root)" "\<forall>r \<in> set (refs_of root). r < n" "marker_kept opts"
    and "process opts root n = (root1, n1)"
  shows "settled opts root1"
proof -
  obtain root' st where w: "walk opts root (init_state n) = (root', st)"
    by (cases "walk opts root (init_state n)")
  with assms(5) have r1: "root1 = OnceExit st root'" by (simp add: process_def)
  from walk_OnceExit_expand(1) [OF assms(2,3) w]
  have e: "OnceExit st root' = expand (map_of (webpRules st)) (map_of (noWebpRules st)) root'" .
  have "variants_settled opts (init_state n)"
    by (simp add: variants_settled_def init_state_def)
  from walk_variants_settled [OF w assms(1,4) this] have vs: "variants_settled opts st" .
  have g: "guarded opts (state_keys st) root'"
    using walk_guarded [OF w assms(2)] by (simp add: state_keys_init)
  have k: "\<forall>i. i \<notin> state_keys st \<longrightarrow>
             map_of (webpRules st) i = None \<and> map_of (noWebpRules st) i = None"
    by (auto simp: state_keys_def map_of_eq_None_iff)
  have v: "\<forall>i v. map_of (webpRules st) i = Some v \<or> map_of (noWebpRules st) i = Some v
             \<longrightarrow> settled opts [v]"
  proof (intro allI impI)
    fix i v
    assume "map_of (webpRules st) i = Some v \<or> map_of (noWebpRules st) i = Some v"
    then have "(i, v) \<in> set (webpRules st) \<or> (i, v) \<in> set (noWebpRules st)"
      using map_of_SomeD by fast
    then have "v \<in> snd ` set (noWebpRules st) \<union> snd ` set (webpRules st)"
      by force
    with vs show "settled opts [v]" by (simp add: variants_settled_def)
  qed
  from expand_settled [OF k v walk_settles [OF w] g] r1 e show ?thesis by simp
qed

lemma process_settled_id: "settled opts root \<Longrightarrow> process opts root n = (root, n)"
  by (simp add: process_def walk_settled_id OnceExit_def init_state_def)

lemma siblings_from_None: "siblings_from ref t = None \<Longrightarrow> ref \<notin> set (refs_of t)"
  by (induction ref t rule: siblings_from.induct) (auto split: if_splits option.splits)

lemma siblings_from_expand_exact:
  assumes "clear_of ref w" "clear_of ref nw"
  shows "siblings_from ref t = Some (Rule ref sel kids # rest) \<Longrightarrow>
     siblings_from ref (expand w nw t)
       = Some (Rule ref sel (expand w nw kids)
                 # opt_list (w ref) @ opt_list (nw ref) @ expand w nw rest)"
proof (induction t rule: refs_of.induct)
  case (3 j sel' kids' ns)
  show ?case
  proof (cases "j = ref")
    case True
    with "3.prems" show ?thesis by simp
  next
    case False
    have v: "ref \<notin> set (refs_of (opt_list (w j) @ opt_list (nw j)))"
      using clear_of_opt [OF assms(1)] clear_of_opt [OF assms(2)] by (simp add: refs_of_append)
    have a: "siblings_from ref (opt_list (w j) @ opt_list (nw j) @ expand w nw ns)
          = siblings_from ref (expand w nw ns)"
      using siblings_from_append [OF v] by simp
    show ?thesis
    proof (cases "siblings_from ref kids'")
      case None
      with "3.prems" False have "siblings_from ref ns = Some (Rule ref sel kids # rest)"
        by simp
      note n = "3.IH"(2) [OF this]
      from None have "ref \<notin> set (refs_of kids')" by (rule siblings_from_None)
      from refs_of_expand_absent [OF assms this]
      have "siblings_from ref (expand w nw kids') = None" by (rule siblings_from_absent)
      with n a False show ?thesis by simp
    next
      case (Some r)
      with "3.prems" False have "siblings_from ref kids' = Some (Rule ref sel kids # rest)"
        by simp
      from "3.IH"(1) [OF this] False show ?thesis by simp
    qed
  qed
next
  case (4 name params kids' ns)
  show ?case
  proof (cases "siblings_from ref kids'")
    case None
    with "4.prems" have "siblings_from ref ns = Some (Rule ref sel kids # rest)"
      by simp
    note n = "4.IH"(2) [OF this]
    from None have "ref \<notin> set (refs_of kids')" by (rule siblings_from_None)
    from refs_of_expand_absent [OF assms this]
    have "siblings_from ref (expand w nw kids') = None" by (rule siblings_from_absent)
    with n show ?thesis by simp
  next
    case (Some r)
    with "4.prems" have "siblings_from ref kids' = Some (Rule ref sel kids # rest)"
      by simp
    from "4.IH"(1) [OF this] show ?thesis by simp
  qed
qed auto

lemma settled_found:
  "settled opts t \<Longrightarrow> siblings_from ref t = Some (Rule ref sel kids # rest)
     \<Longrightarrow> skipped opts sel \<or> matched_decls opts kids = []"
  by (induction ref t rule: siblings_from.induct) (auto split: if_splits option.splits)

lemma guarded_found:
  "guarded opts K t \<Longrightarrow> siblings_from ref t = Some (Rule ref sel kids # rest)
     \<Longrightarrow> skipped opts sel \<or> set (refs_of kids) \<inter> K = {}"
  by (induction ref t rule: siblings_from.induct) (auto split: if_splits option.splits)

lemma found_unskipped_kids:
  "found_unskipped opts ref kids \<Longrightarrow> j \<noteq> ref
     \<Longrightarrow> found_unskipped opts ref (Rule j sel kids # ns)"
  by (auto simp: found_unskipped_def)

lemma found_unskipped_ns:
  "found_unskipped opts ref ns \<Longrightarrow> j \<noteq> ref \<Longrightarrow> ref \<notin> set (refs_of kids)
     \<Longrightarrow> found_unskipped opts ref (Rule j sel kids # ns)"
  by (auto simp: found_unskipped_def siblings_from_absent)

lemma found_unskipped_at_kids:
  "found_unskipped opts ref kids \<Longrightarrow> found_unskipped opts ref (AtRule name params kids # ns)"
  by (auto simp: found_unskipped_def)

lemma found_unskipped_at_ns:
  "found_unskipped opts ref ns \<Longrightarrow> ref \<notin> set (refs_of kids)
     \<Longrightarrow> found_unskipped opts ref (AtRule name params kids # ns)"
  by (auto simp: found_unskipped_def siblings_from_absent)

lemma walk_new_keys:
  "walk opts t st = (t', st') \<Longrightarrow> distinct (refs_of t) \<Longrightarrow> k \<in> state_keys st'
     \<Longrightarrow> k \<notin> state_keys st \<Longrightarrow> found_unskipped opts k t'"
proof (induction t st arbitrary: t' st' rule: walk_induct [where p = "predicate opts"])
  case (Rule j sel kids ns st)
  from Rule.prems(2) have dk: "distinct (refs_of kids)" and dn: "distinct (refs_of ns)"
    and jk: "j \<notin> set (refs_of kids)" and jn: "j \<notin> set (refs_of ns)"
    and kn: "set (refs_of kids) \<inter> set (refs_of ns) = {}"
    by auto
  from Rule.prems(1) show ?case
  proof (cases rule: walk_Rule_elim)
    case (unchanged kids' st2 ns')
    note rk = walk_refs [OF unchanged(2)]
    show ?thesis
    proof (cases "k \<in> state_keys st2")
      case True
      from Rule.IH(1) [OF unchanged(2) dk True Rule.prems(4)]
      have f: "found_unskipped opts k kids'" .
      from walk_keys [OF unchanged(2)] True Rule.prems(4) have "k \<in> set (refs_of kids)" by blast
      with jk have "j \<noteq> k" by blast
      from found_unskipped_kids [OF f this] unchanged(4) show ?thesis by simp
    next
      case False
      from Rule.IH(3) [OF unchanged(3) dn Rule.prems(3) False]
      have f: "found_unskipped opts k ns'" .
      from walk_keys [OF unchanged(3)] Rule.prems(3) False have kin: "k \<in> set (refs_of ns)"
        by blast
      with jn have "j \<noteq> k" by blast
      moreover from kin kn rk have "k \<notin> set (refs_of kids')" by auto
      ultimately show ?thesis
        using found_unskipped_ns [OF f] unchanged(4) by simp
    qed
  next
    case (match ns')
    show ?thesis
    proof (cases "k = j")
      case True
      with match(1,4) show ?thesis by (simp add: found_unskipped_def)
    next
      case False
      let ?st1 = "record_variants opts j (comma sel) (matched_decls opts kids) st"
      from False Rule.prems(4) have nk: "k \<notin> state_keys ?st1" by (simp add: state_keys_record)
      from Rule.IH(3) [OF match(3) dn Rule.prems(3) nk]
      have f: "found_unskipped opts k ns'" .
      from walk_keys [OF match(3)] Rule.prems(3) nk have kin: "k \<in> set (refs_of ns)" by blast
      with kn have "k \<notin> set (refs_of (remove_decls (predicate opts) kids))"
        by (auto simp: refs_of_remove_decls)
      with found_unskipped_ns [OF f] False match(4) show ?thesis by auto
    qed
  qed
next
  case (AtRule name params kids ns st)
  from AtRule.prems(2) have dk: "distinct (refs_of kids)" and dn: "distinct (refs_of ns)"
    and kn: "set (refs_of kids) \<inter> set (refs_of ns) = {}"
    by auto
  from AtRule.prems(1) show ?case
  proof (cases rule: walk_AtRule_elim)
    case (1 kids' st2 ns')
    note rk = walk_refs [OF 1(1)]
    show ?thesis
    proof (cases "k \<in> state_keys st2")
      case True
      from AtRule.IH(1) [OF 1(1) dk True AtRule.prems(4)]
      have "found_unskipped opts k kids'" .
      from found_unskipped_at_kids [OF this] 1(3) show ?thesis by simp
    next
      case False
      from AtRule.IH(2) [OF 1(2) dn AtRule.prems(3) False]
      have f: "found_unskipped opts k ns'" .
      from walk_keys [OF 1(2)] AtRule.prems(3) False have kin: "k \<in> set (refs_of ns)"
        by blast
      with kn rk have "k \<notin> set (refs_of kids')" by auto
      from found_unskipped_at_ns [OF f this] 1(3) show ?thesis by simp
    qed
  qed
next
  case (Decl d ns st)
  from Decl.prems(1) show ?case
    by (cases rule: walk_Decl_elim)
       (use Decl.IH Decl.prems in \<open>auto simp: found_unskipped_def\<close>)
next
  case (Comment c ns st)
  from Comment.prems(1) show ?case
    by (cases rule: walk_Comment_elim)
       (use Comment.IH Comment.prems in \<open>auto simp: found_unskipped_def\<close>)
qed simp

lemma walk_section_rule:
  "walk default_options [section_rule] (init_state 1) = ([section_stripped], section_state)"
  by (simp add: init_state_def section_rule_def section_stripped_def section_state_def
     section_webp_def section_no_webp_def visit_Rule.simps default_options_def
     default_predicate_def default_rename_def re_match_ext re_match_mime ci_char_tok
     transformSelectors_def transformSelector_def strip_selector_def str_replace_def
     str_includes_def marker_token_def new_Rule_def new_decl_def Let_def
     comma_def list_split_def trim_def is_space_simps)

section \<open>The claims\<close>

subsection \<open>Claim C1: sibling order\<close>

text \<open>
  Claim C1, as amended. Let the references of the rules of the root be distinct and
  below the first free reference. For every rule for which the walk recorded both
  variants, the tree after \<^verbatim>\<open>OnceExit\<close> has, as consecutive siblings, the rule itself
  (now without any declaration that satisfies the predicate), then the capable (webp)
  variant, then the fallback (no-webp) variant.
\<close>

theorem OnceExit_sibling_order:
  assumes "distinct (refs_of root)" "\<forall>r \<in> set (refs_of root). r < n"
    and "walk opts root (init_state n) = (root', st)"
    and "map_of (noWebpRules st) j = Some noWebpRule"
    and "map_of (webpRules st) j = Some webpRule"
  shows "\<exists>sel kids rest.
           siblings_from j (OnceExit st root')
             = Some (Rule j sel kids # webpRule # noWebpRule # rest)
           \<and> filter (predicate opts) (decls_of kids) = []"
proof -
  note e = walk_OnceExit_expand [OF assms(1-3)]
  from assms(4) have jk: "j \<in> state_keys st"
    by (auto simp: state_keys_def dest: map_of_SomeD intro: rev_image_eqI)
  have c: "clear_of j (map_of (webpRules st))" "clear_of j (map_of (noWebpRules st))"
    using jk e(2) by (auto intro!: clear_of_map_of simp: variant_refs_def)
  from walk_new_keys [OF assms(3,1) jk] obtain sel kids rest
    where f: "siblings_from j root' = Some (Rule j sel kids # rest)"
      and ns: "\<not> skipped opts sel"
    by (auto simp: found_unskipped_def state_keys_init)
  from settled_found [OF walk_settles [OF assms(3)] f] ns
  have m: "matched_decls opts kids = []" by simp
  have "guarded opts (state_keys st) root'"
    using walk_guarded [OF assms(3,1)] by (simp add: state_keys_init)
  from guarded_found [OF this f] ns have d: "set (refs_of kids) \<inter> state_keys st = {}" by simp
  have "map_of (webpRules st) i = None \<and> map_of (noWebpRules st) i = None"
    if "i \<in> set (refs_of kids)" for i
    using that d by (auto simp: state_keys_def map_of_eq_None_iff)
  then have "expand (map_of (webpRules st)) (map_of (noWebpRules st)) kids
               = expand (\<lambda>_. None) (\<lambda>_. None) kids"
    by (intro expand_cong) simp
  then have k: "expand (map_of (webpRules st)) (map_of (noWebpRules st)) kids = kids"
    by (simp add: expand_empty)
  from siblings_from_expand_exact [OF c f] k assms(4,5) e(1)
  have "siblings_from j (OnceExit st root')
          = Some (Rule j sel kids # webpRule # noWebpRule
                    # expand (map_of (webpRules st)) (map_of (noWebpRules st)) rest)"
    by simp
  with m show ?thesis by (auto simp: matched_decls_def)
qed

theorem OnceExit_sibling_order_witness:
  "refs_of [section_rule] = [0] \<and> (0::nat) < 1
   \<and> walk default_options [section_rule] (init_state 1) = ([section_stripped], section_state)
   \<and> map_of (noWebpRules section_state) 0 = Some section_no_webp
   \<and> map_of (webpRules section_state) 0 = Some section_webp
   \<and> (\<exists>sel kids rest.
         siblings_from 0 (OnceExit section_state [section_stripped])
           = Some (Rule 0 sel kids # section_webp # section_no_webp # rest)
         \<and> filter (predicate default_options) (decls_of kids) = [])"
proof -
  have a: "distinct (refs_of [section_rule])" "\<forall>r \<in> set (refs_of [section_rule]). r < 1"
    by (simp_all add: section_rule_def)
  have b: "map_of (noWebpRules section_state) 0 = Some section_no_webp"
    "map_of (webpRules section_state) 0 = Some section_webp"
    by (simp_all add: section_state_def)
  have r: "refs_of [section_rule] = [0]" by (simp add: section_rule_def)
  from OnceExit_sibling_order [OF a walk_section_rule b] r b walk_section_rule
  show ?thesis by simp
qed

text \<open>
  The claim as stated, with the fallback variant before the capable one, fails on the
  example of claim C2: the second loop of \<^verbatim>\<open>OnceExit\<close> puts the capable variant directly
  behind the rule, in front of the fallback variant the first loop had put there.
\<close>

theorem OnceExit_fallback_first_counterexample:
  "fst (process default_options [section_rule] 1)
     = [section_stripped, section_webp, section_no_webp]
   \<and> fst (process default_options [section_rule] 1)
     \<noteq> [section_stripped, section_no_webp, section_webp]"
proof -
  have "section_webp \<noteq> section_no_webp"
    by (simp add: section_webp_def section_no_webp_def)
  with process_section_rule show ?thesis by (simp only: fst_conv list.inject) simp
qed

subsection \<open>Claim C2: the end-to-end example\<close>

text \<open>
  Claim C2. For the stylesheet \<^verbatim>\<open>section { background: url(./image.png); color: red; }\<close>
  and the default options the plugin gives the rule \<^verbatim>\<open>section { color: red; }\<close>, then
  \<^verbatim>\<open>html.webp section { background: url(./image.webp); }\<close>, then
  \<^verbatim>\<open>html.no-webp section { background: url(./image.png); }\<close>, in this order.
\<close>

theorem process_example:
  "fst (process default_options
     [Rule 0 ''section''
       [Decl \<lparr>decl_prop = ''background'', decl_value = ''url(./image.png)'',
               decl_important = False\<rparr>,
        Decl \<lparr>decl_prop = ''color'', decl_value = ''red'', decl_important = False\<rparr>]] 1)
   = [Rule 0 ''section''
       [Decl \<lparr>decl_prop = ''color'', decl_value = ''red'', decl_important = False\<rparr>],
      Rule 2 ''html.webp section''
       [Decl \<lparr>decl_prop = ''background'', decl_value = ''url(./image.webp)'',
               decl_important = False\<rparr>],
      Rule 1 ''html.no-webp section''
       [Decl \<lparr>decl_prop = ''background'', decl_value = ''url(./image.png)'',
               decl_important = False\<rparr>]]"
  using process_section_rule
  by (simp add: section_rule_def section_stripped_def section_webp_def section_no_webp_def)

subsection \<open>Claim C3: running the plugin twice\<close>

text \<open>
  Claim C3. With the default predicate and rename function and a fallback class name
  without a dollar sign, as the default one, on a root whose rules have distinct
  references below the first free reference, a second run of the plugin over the result
  of the first run returns that result as it is and creates no rule: every rule in it is
  either skipped by the guard of the visitor, which returns at once for a selector that
  contains the fallback marker, or has no declaration left that satisfies the predicate.
  With the option \<^verbatim>\<open>addNoJs\<close>, which is off by default, the fallback selectors are read
  back through the accessor of the engine before they are stored; the marker is kept
  then when the fallback class name has no comma and does not end in white space.
\<close>

theorem process_twice:
  assumes "predicate opts = default_predicate" "rename opts = default_rename"
    and "CHR ''$'' \<notin> set (noWebpClass opts)"
    and "addNoJs opts \<longrightarrow>
           CHR '','' \<notin> set (noWebpClass opts) \<and> \<not> is_space (last (''.'' @ noWebpClass opts))"
    and "distinct (refs_of root)" "\<forall>r \<in> set (refs_of root). r < n"
  shows "process opts (fst (process opts root n)) (snd (process opts root n))
           = process opts root n
    \<and> (\<forall>j sel kids st. str_includes sel (''.'' @ noWebpClass opts) \<longrightarrow>
          visit_Rule opts (Rule j sel kids) st = (Rule j sel kids, st))"
proof -
  obtain root1 n1 where p: "process opts root n = (root1, n1)"
    by (cases "process opts root n")
  from assms(1-3) have "default_renaming opts" by (simp add: default_renaming_def)
  moreover from assms(4) have "marker_kept opts" by (simp add: marker_kept_def)
  ultimately have "settled opts root1" using process_settled [OF _ assms(5,6) _ p] by simp
  from process_settled_id [OF this, of n1] p
  have "process opts (fst (process opts root n)) (snd (process opts root n))
           = process opts root n"
    by simp
  then show ?thesis using visit_Rule_skip by blast
qed

theorem process_twice_witness:
  "predicate default_options = default_predicate \<and> rename default_options = default_rename
   \<and> CHR ''$'' \<notin> set (noWebpClass default_options)
   \<and> \<not> addNoJs default_options
   \<and> refs_of [section_rule] = [0] \<and> (0::nat) < 1
   \<and> process default_options [section_rule] 1
        = ([section_stripped, section_webp, section_no_webp], 3)
   \<and> process default_options [section_stripped, section_webp, section_no_webp] 3
        = ([section_stripped, section_webp, section_no_webp], 3)"
proof -
  have a: "predicate default_options = default_predicate"
    "rename default_options = default_rename"
    "CHR ''$'' \<notin> set (noWebpClass default_options)"
    by (simp_all add: default_options_def)
  have n: "\<not> addNoJs default_options" by (simp add: default_options_def)
  then have k: "addNoJs default_options \<longrightarrow>
      CHR '','' \<notin> set (noWebpClass default_options)
        \<and> \<not> is_space (last (''.'' @ noWebpClass default_options))"
    by simp
  have b: "distinct (refs_of [section_rule])" "\<forall>r \<in> set (refs_of [section_rule]). r < 1"
    by (simp_all add: section_rule_def)
  from process_twice [OF a k b] process_section_rule
  have "process default_options [section_stripped, section_webp, section_no_webp] 3
        = ([section_stripped, section_webp, section_no_webp], 3)"
    by simp
  moreover have "refs_of [section_rule] = [0]" by (simp add: section_rule_def)
  ultimately show ?thesis using a n process_section_rule by simp
qed

text \<open>
  The condition on the class name is needed with \<^verbatim>\<open>addNoJs\<close>. For the fallback class name
  \<^verbatim>\<open>a,b, c\<close> the fallback selector \<^verbatim>\<open>html.a,b, c x\<close> is read back as the three entries
  \<^verbatim>\<open>html.a\<close>, \<^verbatim>\<open>b\<close> and \<^verbatim>\<open>c x\<close> and stored joined with the comma alone, so that the
  marker \<^verbatim>\<open>.a,b, c\<close> is no longer in the selector of the fallback rule; a second run
  does not skip that rule and makes two more rules of it.
\<close>

lemma process_marker_lost:
  "process lossy_options [x_rule] 1 = (x_result, 3)
   \<and> snd (process lossy_options x_result 3) = 5"
  by (simp add: lossy_options_def x_rule_def x_result_def process_def init_state_def
     visit_Rule.simps default_options_def default_predicate_def default_rename_def
     re_match_ext re_match_mime ci_char_tok transformSelectors_def transformSelector_def
     strip_selector_def str_replace_def str_includes_def marker_token_def new_Rule_def
     new_decl_def OnceExit_def Let_def comma_def list_split_def trim_def is_space_simps
     update_conv')

subsection \<open>Claim C4: the default rename function\<close>

text \<open>
  Claim C4. Wherever an occurrence of one of \<^verbatim>\<open>.jpg\<close>, \<^verbatim>\<open>.jpeg\<close>, \<^verbatim>\<open>.png\<close>, \<^verbatim>\<open>.gif\<close>,
  \<^verbatim>\<open>.avif\<close> (in any case of letters) stands in a value, the default rename function
  gives the renamed text before it, then \<^verbatim>\<open>.webp\<close>, then the renamed text behind it; the
  same holds for the MIME tokens with \<^verbatim>\<open>image/webp\<close>. So every occurrence is replaced,
  not only the first one: no extension and no MIME token is left in the result, and a
  value without any is returned as it is.
\<close>

theorem default_rename_every_occurrence:
  "(is_occurrence extension_tokens m \<longrightarrow>
      default_rename (d\<lparr>decl_value := u @ m @ rest\<rparr>)
        = default_rename (d\<lparr>decl_value := u\<rparr>) @ ''.webp''
            @ default_rename (d\<lparr>decl_value := rest\<rparr>))
   \<and> (is_occurrence mime_tokens m \<longrightarrow>
      default_rename (d\<lparr>decl_value := u @ m @ rest\<rparr>)
        = default_rename (d\<lparr>decl_value := u\<rparr>) @ ''image/webp''
            @ default_rename (d\<lparr>decl_value := rest\<rparr>))
   \<and> (\<not> re_test extension_tokens (decl_value d) \<and> \<not> re_test mime_tokens (decl_value d) \<longrightarrow>
      default_rename d = decl_value d)
   \<and> \<not> re_test extension_tokens (default_rename d)
   \<and> \<not> re_test mime_tokens (default_rename d)"
proof -
  have "default_rename (d\<lparr>decl_value := v\<rparr>) = rename_value v" for v
    by (simp add: default_rename_value)
  moreover have "default_rename d = rename_value (decl_value d)"
    by (rule default_rename_value)
  ultimately show ?thesis
    using rename_value_extension [of m u rest] rename_value_mime [of m u rest]
      rename_value_id [of "decl_value d"]
      default_rename_no_extension [of d] default_rename_no_mime [of d]
    by (simp only: simp_thms) blast
qed

theorem default_rename_every_occurrence_witness:
  "is_occurrence extension_tokens ''.JPG''
   \<and> is_occurrence mime_tokens ''Image/PNG''
   \<and> default_rename (jpg_decl\<lparr>decl_value := ''url(a'' @ ''.JPG'' @ '') url(b.png)''\<rparr>)
       = ''url(a.webp) url(b.webp)''
   \<and> default_rename (jpg_decl\<lparr>decl_value := ''type('' @ ''Image/PNG'' @ '') image/gif''\<rparr>)
       = ''type(image/webp) image/webp''
   \<and> \<not> re_test extension_tokens ''auto'' \<and> \<not> re_test mime_tokens ''auto''
   \<and> default_rename (jpg_decl\<lparr>decl_value := ''auto''\<rparr>) = ''auto''"
proof -
  have e: "is_occurrence extension_tokens ''.JPG''"
    by (simp add: is_occurrence_def extension_tokens_def ci_char_tok)
  have m: "is_occurrence mime_tokens ''Image/PNG''"
    by (simp add: is_occurrence_def mime_tokens_def ci_char_tok)
  have n: "\<not> re_test extension_tokens ''auto'' \<and> \<not> re_test mime_tokens ''auto''"
    by (simp add: re_match_ext re_match_mime ci_char_tok)
  have v: "default_rename (jpg_decl\<lparr>decl_value := ''url(a''\<rparr>) = ''url(a''"
    "default_rename (jpg_decl\<lparr>decl_value := '') url(b.png)''\<rparr>) = '') url(b.webp)''"
    "default_rename (jpg_decl\<lparr>decl_value := ''type(''\<rparr>) = ''type(''"
    "default_rename (jpg_decl\<lparr>decl_value := '') image/gif''\<rparr>) = '') image/webp''"
    by (simp_all add: default_rename_def re_match_ext re_match_mime ci_char_tok)
  from default_rename_every_occurrence [where m = "''.JPG''" and d = jpg_decl and u = "''url(a''"
      and rest = "'') url(b.png)''"] e v
  have 1: "default_rename (jpg_decl\<lparr>decl_value := ''url(a'' @ ''.JPG'' @ '') url(b.png)''\<rparr>)
       = ''url(a.webp) url(b.webp)''"
    by simp
  from default_rename_every_occurrence [where m = "''Image/PNG''" and d = jpg_decl
      and u = "''type(''" and rest = "'') image/gif''"] m v
  have 2: "default_rename (jpg_decl\<lparr>decl_value := ''type('' @ ''Image/PNG'' @ '') image/gif''\<rparr>)
       = ''type(image/webp) image/webp''"
    by simp
  from default_rename_every_occurrence [where d = "jpg_decl\<lparr>decl_value := ''auto''\<rparr>"] n
  have 3: "default_rename (jpg_decl\<lparr>decl_value := ''auto''\<rparr>) = ''auto''"
    by simp
  from e m n 1 2 3 show ?thesis by blast
qed

subsection \<open>Claim C5: length and marker of the transformed selectors\<close>

text \<open>
  Claim C5, as amended. For every selector list and every class name,
  \<^verbatim>\<open>transformSelectors\<close> returns a list as long as its input. When the class name contains
  no dollar sign, every selector it returns contains the marker token directly behind
  \<^verbatim>\<open>html\<close>; and it contains the token exactly once when, besides, the first character of
  the token (the dot, or the colon of \<^verbatim>\<open>:global(\<close> with the option \<^verbatim>\<open>modules\<close>) does not
  occur in the class name and the input selector no longer contains the token after the
  strip step.
\<close>

theorem transformSelectors_length_marker:
  "length (transformSelectors opts selectors className) = length selectors
   \<and> (CHR ''$'' \<notin> set className \<longrightarrow>
        (\<forall>i < length selectors.
           str_includes (transformSelectors opts selectors className ! i)
             (''html'' @ marker_token opts className)
           \<and> ((if modules opts then CHR '':'' else CHR ''.'') \<notin> set className
                \<and> \<not> str_includes (strip_selector (marker_token opts className) (selectors ! i))
                      (marker_token opts className)
              \<longrightarrow> occurrences (transformSelectors opts selectors className ! i)
                    (marker_token opts className) = 1)))"
proof (intro conjI impI allI)
  show "length (transformSelectors opts selectors className) = length selectors"
    by (simp add: transformSelectors_def)
next
  fix i
  assume d: "CHR ''$'' \<notin> set className" and i: "i < length selectors"
  from transformSelector_includes [OF dollar_marker_token [OF d]] i
  show "str_includes (transformSelectors opts selectors className ! i)
          (''html'' @ marker_token opts className)"
    by (simp add: transformSelectors_def)
next
  fix i
  let ?t = "marker_token opts className"
  assume d: "CHR ''$'' \<notin> set className" and i: "i < length selectors"
    and h: "(if modules opts then CHR '':'' else CHR ''.'') \<notin> set className
              \<and> \<not> str_includes (strip_selector ?t (selectors ! i)) ?t"
  let ?c = "if modules opts then CHR '':'' else CHR ''.''"
  let ?n = "if modules opts then ''global(.'' @ className @ '')'' else className"
  from h have "?c \<notin> set ?n" by (simp split: if_splits)
  moreover have "?c \<notin> set ''html ''" by simp
  moreover note marker_token_split [of opts className] dollar_marker_token [OF d, of opts]
  ultimately have "occurrences (transformSelector ?t (selectors ! i)) ?t = 1"
    using h by (intro transformSelector_once [where c = ?c and name = ?n]) simp_all
  with i show "occurrences (transformSelectors opts selectors className ! i) ?t = 1"
    by (simp add: transformSelectors_def)
qed

theorem transformSelectors_length_marker_witness:
  "CHR ''$'' \<notin> set ''webp'' \<and> CHR ''.'' \<notin> set ''webp'' \<and> \<not> modules default_options
    \<and> strip_selector (marker_token default_options ''webp'') ''main'' = ''main''
    \<and> strip_selector (marker_token default_options ''webp'') '':root'' = []
    \<and> strip_selector (marker_token default_options ''webp'') ''html.webp[lang] a'' = ''html[lang] a''
    \<and> transformSelectors default_options [''main'', '':root'', ''html.webp[lang] a''] ''webp''
          = [''html.webp main'', ''html.webp'', ''html.webp[lang] a'']
    \<and> length (transformSelectors default_options [''main'', '':root'', ''html.webp[lang] a''] ''webp'') = 3
    \<and> str_includes ''html.webp main'' (''html'' @ marker_token default_options ''webp'')
    \<and> str_includes ''html.webp'' (''html'' @ marker_token default_options ''webp'')
    \<and> str_includes ''html.webp[lang] a'' (''html'' @ marker_token default_options ''webp'')
    \<and> occurrences ''html.webp main'' (marker_token default_options ''webp'') = 1
    \<and> occurrences ''html.webp'' (marker_token default_options ''webp'') = 1
    \<and> occurrences ''html.webp[lang] a'' (marker_token default_options ''webp'') = 1"
proof -
  let ?t = "marker_token default_options ''webp''"
  let ?in = "[''main'', '':root'', ''html.webp[lang] a'']"
  let ?out = "transformSelectors default_options ?in ''webp''"
  have e: "?out = [''html.webp main'', ''html.webp'', ''html.webp[lang] a'']"
    by (simp add: transformSelectors_def transformSelector_def strip_selector_def
        str_replace_def str_includes_def marker_token_def default_options_def)
  have d: "CHR ''$'' \<notin> set ''webp''" "CHR ''.'' \<notin> set ''webp''" "\<not> modules default_options"
    by (simp_all add: default_options_def)
  have s: "strip_selector ?t ''main'' = ''main''" "strip_selector ?t '':root'' = []"
    "strip_selector ?t ''html.webp[lang] a'' = ''html[lang] a''"
    by (simp_all add: strip_selector_def str_replace_def marker_token_def default_options_def)
  have n: "\<not> str_includes ''main'' ?t" "\<not> str_includes [] ?t" "\<not> str_includes ''html[lang] a'' ?t"
    by (simp_all add: str_includes_def marker_token_def default_options_def)
  from transformSelectors_length_marker [of default_options ?in "''webp''"] d(1)
  have l: "length ?out = length ?in"
    and a: "\<forall>i < length ?in.
           str_includes (?out ! i) (''html'' @ ?t)
           \<and> ((if modules default_options then CHR '':'' else CHR ''.'') \<notin> set ''webp''
                \<and> \<not> str_includes (strip_selector ?t (?in ! i)) ?t
              \<longrightarrow> occurrences (?out ! i) ?t = 1)"
    by blast+
  from a [rule_format, of 0] a [rule_format, of 1] a [rule_format, of 2] e d s n
  have "str_includes ''html.webp main'' (''html'' @ ?t)
    \<and> str_includes ''html.webp'' (''html'' @ ?t)
    \<and> str_includes ''html.webp[lang] a'' (''html'' @ ?t)
    \<and> occurrences ''html.webp main'' ?t = 1
    \<and> occurrences ''html.webp'' ?t = 1
    \<and> occurrences ''html.webp[lang] a'' ?t = 1"
    by simp
  with l e d s show ?thesis by simp
qed

text \<open>
  The claim as stated fails, and each of the three conditions is needed for the token to
  occur exactly once: a selector that carries the token twice keeps one of them and gets
  another one; a class name with a dollar pattern does not arrive as it is; and with a
  dot in the class name the token can occur across the place where it is put in.
\<close>

theorem transformSelectors_exactly_one_counterexample:
  "transformSelectors default_options [''.webp-a .webp-b''] ''webp'' = [''html.webp -a .webp-b'']
   \<and> occurrences ''html.webp -a .webp-b'' (marker_token default_options ''webp'') = 2
   \<and> transformSelectors default_options [''html''] ''a$$b'' = [''html.a$b'']
   \<and> occurrences ''html.a$b'' (marker_token default_options ''a$$b'') = 0
   \<and> transformSelectors default_options [''.xhtml''] ''xhtml.xhtml'' = [''.xhtml.xhtml.xhtml'']
   \<and> occurrences ''.xhtml.xhtml.xhtml'' (marker_token default_options ''xhtml.xhtml'') = 2"
  by (simp add: transformSelectors_def transformSelector_def strip_selector_def str_replace_def
      str_includes_def marker_token_def default_options_def)

subsection \<open>Claim C6: the three cases of the selector transformer\<close>

text \<open>
  Claim C6, as amended. Let \<open>cleaned\<close> be the selector after the strip step. If
  \<^verbatim>\<open>html\<close> occurs in it, first at position \<open>i\<close>, and the token contains no dollar sign,
  the result is \<open>cleaned\<close> with the token inserted directly behind that first
  \<^verbatim>\<open>html\<close>; otherwise, if \<open>cleaned\<close> is not empty, the result is \<^verbatim>\<open>html\<close>, the token, a
  space and \<open>cleaned\<close>; otherwise it is \<^verbatim>\<open>html\<close> and the token with nothing behind.
  The result of the first case may contain \<^verbatim>\<open>html\<close> with the token more than once.
\<close>

theorem transformSelector_cases:
  assumes "cleaned = strip_selector token selector"
  shows "(\<forall>i. index_of cleaned ''html'' = Some i \<and> CHR ''$'' \<notin> set token \<longrightarrow>
            transformSelector token selector
              = take i cleaned @ ''html'' @ token @ drop (i + 4) cleaned
            \<and> (\<forall>k<i. \<not> starts_with (drop k cleaned) ''html''))
       \<and> (\<not> str_includes cleaned ''html'' \<and> cleaned \<noteq> [] \<longrightarrow>
            transformSelector token selector = ''html'' @ token @ '' '' @ cleaned)
       \<and> (cleaned = [] \<longrightarrow> transformSelector token selector = ''html'' @ token)"
proof (intro conjI allI impI, goal_cases)
  case (1 i)
  then have "CHR ''$'' \<notin> set (''html'' @ token)" by simp
  from str_replace_plain [OF this] 1
  have "str_replace cleaned ''html'' (''html'' @ token)
          = take i cleaned @ (''html'' @ token) @ drop (i + length ''html'') cleaned"
    by blast
  moreover from 1 have "str_includes cleaned ''html''" by (simp add: str_includes_def)
  moreover have "Suc (Suc (Suc (Suc i))) = i + 4" by simp
  ultimately show ?case
    using assms by (simp add: transformSelector_def Let_def)
next
  case (2 i)
  then show ?case using index_of_first by blast
next
  case 3
  then show ?case
    using assms by (simp add: transformSelector_def Let_def)
next
  case 4
  then show ?case
    using assms by (simp add: transformSelector_def Let_def str_includes_def)
qed

theorem transformSelector_cases_witness:
  "transformSelector ''.webp'' ''html[lang] main'' = ''html.webp[lang] main''
   \<and> transformSelector ''.webp'' ''main > section'' = ''html.webp main > section''
   \<and> transformSelector ''.webp'' '':root'' = ''html.webp''"
proof -
  have 1: "strip_selector ''.webp'' ''html[lang] main'' = ''html[lang] main''"
    and 2: "strip_selector ''.webp'' ''main > section'' = ''main > section''"
    and 3: "strip_selector ''.webp'' '':root'' = []"
    by (simp_all add: strip_selector_def str_replace_def)
  have i: "index_of ''html[lang] main'' ''html'' = Some 0 \<and> CHR ''$'' \<notin> set ''.webp''"
    by simp
  have n: "\<not> str_includes ''main > section'' ''html'' \<and> ''main > section'' \<noteq> []"
    by (simp add: str_includes_def)
  from transformSelector_cases [OF 1 [symmetric]] i
  have "transformSelector ''.webp'' ''html[lang] main'' = ''html.webp[lang] main''"
    by simp
  moreover from transformSelector_cases [OF 2 [symmetric]] n
  have "transformSelector ''.webp'' ''main > section'' = ''html.webp main > section''"
    by simp
  moreover from transformSelector_cases [OF 3 [symmetric]]
  have "transformSelector ''.webp'' '':root'' = ''html.webp''"
    by simp
  ultimately show ?thesis by blast
qed

text \<open>
  The claim as stated fails: a selector with a second \<^verbatim>\<open>html\<close> that already carries the
  token gives a result with two such compounds, and a token with a dollar pattern is
  not inserted as it is.
\<close>

theorem transformSelector_exactly_one_counterexample:
  "transformSelector ''.webp'' ''html.webp-ready html.webp-on'' = ''html.webp-ready html.webp-on''
   \<and> occurrences ''html.webp-ready html.webp-on'' (''html'' @ ''.webp'') = 2
   \<and> strip_selector ''.a$$b'' ''html'' = ''html''
   \<and> transformSelector ''.a$$b'' ''html'' = ''html.a$b''"
  by (simp add: transformSelector_def strip_selector_def str_replace_def str_includes_def)

subsection \<open>Claim C7: the strip step\<close>



subsection \<open>Claim C8: declarations that do not match\<close>

text \<open>
  Claim C8. The visitor returns the rule with the same reference and selector, and with
  children that differ from the old ones only by declarations that satisfy the
  predicate: the declarations that do not satisfy it are the same, in the same order,
  and after removing the satisfying declarations from both, the children are equal. When
  no declaration below the rule satisfies the predicate, the rule and the state (hence
  both maps) are returned as they were.
\<close>

theorem visit_Rule_frame:
  "(\<exists>kids'. fst (visit_Rule opts (Rule j sel kids) st) = Rule j sel kids'
      \<and> filter (\<lambda>d. \<not> predicate opts d) (decls_of kids')
          = filter (\<lambda>d. \<not> predicate opts d) (decls_of kids)
      \<and> remove_decls (predicate opts) kids' = remove_decls (predicate opts) kids)
   \<and> (filter (predicate opts) (decls_of kids) = [] \<longrightarrow>
         visit_Rule opts (Rule j sel kids) st = (Rule j sel kids, st))"
  by (auto simp: visit_Rule_fst decls_of_remove_decls remove_decls_idem visit_Rule_no_match
      simp del: One_nat_def)

theorem visit_Rule_frame_witness:
  "filter (predicate default_options) (decls_of (nodes_of relative_rule)) = []
   \<and> visit_Rule default_options relative_rule (init_state 1) = (relative_rule, init_state 1)"
proof -
  have e: "filter (predicate default_options) (decls_of (nodes_of relative_rule)) = []"
    by (simp add: relative_rule_def default_options_def default_predicate_def re_match_ext
        ci_char_tok)
  from visit_Rule_frame [of default_options 0 "''section''"
      "nodes_of relative_rule" "init_state 1"] e
  have "visit_Rule default_options
          (Rule 0 ''section'' (nodes_of relative_rule)) (init_state 1)
        = (Rule 0 ''section'' (nodes_of relative_rule), init_state 1)"
    by blast
  moreover have "Rule 0 ''section'' (nodes_of relative_rule) = relative_rule"
    by (simp add: relative_rule_def)
  ultimately show ?thesis using e by simp
qed

subsection \<open>Claim C9: the no-script selectors\<close>

text \<open>
  Claim C9, as amended. When \<^verbatim>\<open>addNoJs\<close> is true and the visitor produces a fallback rule
  (the rule is not skipped and some declaration satisfies the predicate), the selector
  string of the fallback rule recorded for the visited rule is the join of two lists:
  the output of \<^verbatim>\<open>transformSelectors\<close> for the fallback class as the accessor of the
  engine reads it back (joined with a comma and a space, split again at the commas
  outside quotes and parentheses, every entry trimmed), followed by the output for the
  no-script class as it is. When every selector of the two outputs is closed (not empty,
  no white space at either end, no comma outside quotes and parentheses, no quote,
  parenthesis or escape left open), the selector list of the fallback rule is the first
  output followed by the second.
\<close>

theorem visit_Rule_addNoJs:
  assumes "addNoJs opts"
    and "\<not> str_includes sel (''.'' @ noWebpClass opts)"
    and "filter (predicate opts) (decls_of kids) \<noteq> []"
  shows "\<exists>r. map_of (noWebpRules (snd (visit_Rule opts (Rule j sel kids) st))) j = Some r
     \<and> get_selector r =
         join (case comma_sep (join '', '' (transformSelectors opts (comma sel) (noWebpClass opts)))
               of Some m \<Rightarrow> m | None \<Rightarrow> '', '')
           (comma (join '', '' (transformSelectors opts (comma sel) (noWebpClass opts)))
              @ transformSelectors opts (comma sel) (noJsClass opts))
     \<and> ((\<forall>x \<in> set (transformSelectors opts (comma sel) (noWebpClass opts)
                      @ transformSelectors opts (comma sel) (noJsClass opts)). closed_selector x)
          \<longrightarrow> get_selectors r = transformSelectors opts (comma sel) (noWebpClass opts)
                                  @ transformSelectors opts (comma sel) (noJsClass opts))"
proof -
  let ?F = "transformSelectors opts (comma sel) (noWebpClass opts)"
  let ?N = "transformSelectors opts (comma sel) (noJsClass opts)"
  let ?sep = "case comma_sep (join '', '' ?F) of Some m \<Rightarrow> m | None \<Rightarrow> '', ''"
  let ?r = "Rule (next_ref st) (join ?sep (comma (join '', '' ?F) @ ?N))
              (map (Decl \<circ> (\<lambda>d. new_decl (decl_prop d) (decl_value d)))
                 (filter (predicate opts) (decls_of kids)))"
  from assms have m: "map_of (noWebpRules (snd (visit_Rule opts (Rule j sel kids) st))) j = Some ?r"
    by (simp add: visit_Rule.simps Let_def new_Rule_def update_conv')
  have "get_selectors ?r = ?F @ ?N" if p: "\<forall>x \<in> set (?F @ ?N). closed_selector x"
  proof -
    have ne: "?F \<noteq> []" by (simp add: transformSelectors_def comma_not_Nil)
    from p have pf: "\<forall>x \<in> set ?F. closed_selector x" by simp
    have sp: "\<forall>c \<in> set '' ''. is_space c" by (simp add: is_space_simps)
    from comma_join [OF ne pf sp] have 1: "comma (join '', '' ?F) = ?F" .
    obtain ws where ws: "?sep = CHR '','' # ws" "\<forall>c \<in> set ws. is_space c"
      using comma_sep_form by blast
    have "get_selectors ?r = comma (join ?sep (comma (join '', '' ?F) @ ?N))" by simp
    also have "\<dots> = comma (join (CHR '','' # ws) (?F @ ?N))" by (simp only: 1 ws(1))
    also have "\<dots> = ?F @ ?N" by (rule comma_join [OF _ p ws(2)]) (use ne in simp)
    finally show ?thesis .
  qed
  with m show ?thesis by simp
qed

theorem visit_Rule_addNoJs_witness:
  "addNoJs (default_options\<lparr>addNoJs := True\<rparr>)
   \<and> \<not> str_includes ''main, section'' (''.'' @ noWebpClass (default_options\<lparr>addNoJs := True\<rparr>))
   \<and> filter (predicate (default_options\<lparr>addNoJs := True\<rparr>)) (decls_of (nodes_of main_rule)) \<noteq> []
   \<and> closed_selector ''html.no-webp main'' \<and> closed_selector ''html.no-webp section''
   \<and> closed_selector ''html.no-js main'' \<and> closed_selector ''html.no-js section''
   \<and> map_option get_selectors
        (map_of (noWebpRules (snd (visit_Rule (default_options\<lparr>addNoJs := True\<rparr>) main_rule
           (init_state 1)))) 0)
       = Some [''html.no-webp main'', ''html.no-webp section'',
               ''html.no-js main'', ''html.no-js section'']"
proof -
  let ?o = "default_options\<lparr>addNoJs := True\<rparr>"
  have a: "addNoJs ?o" by simp
  have b: "\<not> str_includes ''main, section'' (''.'' @ noWebpClass ?o)"
    by (simp add: default_options_def str_includes_def)
  have c: "filter (predicate ?o) (decls_of (nodes_of main_rule)) \<noteq> []"
    by (simp add: main_rule_def default_options_def default_predicate_def re_match_ext
        ci_char_tok)
  have s: "comma ''main, section'' = [''main'', ''section'']"
    by (simp add: comma_def list_split_def trim_def is_space_simps)
  have t: "transformSelectors ?o [''main'', ''section''] (noWebpClass ?o)
             @ transformSelectors ?o [''main'', ''section''] (noJsClass ?o)
           = [''html.no-webp main'', ''html.no-webp section'',
              ''html.no-js main'', ''html.no-js section'']"
    by (simp add: transformSelectors_def transformSelector_def strip_selector_def
        str_replace_def str_includes_def marker_token_def default_options_def)
  have p: "closed_selector ''html.no-webp main''" "closed_selector ''html.no-webp section''"
    "closed_selector ''html.no-js main''" "closed_selector ''html.no-js section''"
    by (simp_all add: closed_selector_def is_space_simps)
  have m: "main_rule = Rule 0 ''main, section'' (nodes_of main_rule)"
    by (simp add: main_rule_def)
  from visit_Rule_addNoJs [OF a b c, of 0 "init_state 1"]
  obtain r where
    "map_of (noWebpRules (snd (visit_Rule ?o
        (Rule 0 ''main, section'' (nodes_of main_rule))
        (init_state 1)))) 0 = Some r"
    and "(\<forall>x \<in> set (transformSelectors ?o (comma ''main, section'') (noWebpClass ?o)
                      @ transformSelectors ?o (comma ''main, section'') (noJsClass ?o)). closed_selector x)
          \<longrightarrow> get_selectors r = transformSelectors ?o (comma ''main, section'') (noWebpClass ?o)
                                  @ transformSelectors ?o (comma ''main, section'') (noJsClass ?o)"
    by blast
  with s t p m have "map_option get_selectors
        (map_of (noWebpRules (snd (visit_Rule ?o main_rule (init_state 1)))) 0)
       = Some [''html.no-webp main'', ''html.no-webp section'',
               ''html.no-js main'', ''html.no-js section'']"
    by simp
  with a b c p show ?thesis by blast
qed

text \<open>
  The claim as stated fails, since the fallback selectors are read back before the
  no-script selectors are appended. For the rule \<^verbatim>\<open>:root html { background: url(./image.jpg) }\<close>
  the two outputs are \<^verbatim>\<open>" html.no-webp"\<close> and \<^verbatim>\<open>" html.no-js"\<close>, each with a space in
  front; the first is read back without it, so that the selector string of the fallback
  rule is \<^verbatim>\<open>"html.no-webp,  html.no-js"\<close> and its selector list has neither space.
\<close>

theorem visit_Rule_addNoJs_concat_counterexample:
  "transformSelectors (default_options\<lparr>addNoJs := True\<rparr>) (get_selectors root_html_rule) ''no-webp''
     @ transformSelectors (default_options\<lparr>addNoJs := True\<rparr>) (get_selectors root_html_rule) ''no-js''
     = ['' html.no-webp'', '' html.no-js'']
   \<and> map_option get_selector
        (map_of (noWebpRules (snd (visit_Rule (default_options\<lparr>addNoJs := True\<rparr>) root_html_rule
           (init_state 1)))) 0)
       = Some ''html.no-webp,  html.no-js''
   \<and> map_option get_selectors
        (map_of (noWebpRules (snd (visit_Rule (default_options\<lparr>addNoJs := True\<rparr>) root_html_rule
           (init_state 1)))) 0)
       = Some [''html.no-webp'', ''html.no-js'']"
  by (simp add: root_html_rule_def visit_Rule.simps Let_def new_Rule_def default_options_def
      default_predicate_def re_match_ext ci_char_tok transformSelectors_def
      transformSelector_def strip_selector_def str_replace_def str_includes_def
      marker_token_def comma_def list_split_def trim_def is_space_simps update_conv'
      init_state_def)

subsection \<open>Claim C10: the guard is a substring test\<close>

text \<open>
  Claim C10. The guard of the visitor is a substring test on the selector string: when
  the dot and the fallback class name occur in it anywhere, also as the beginning of a
  longer class name, the visitor returns at once with the rule and the state (hence both
  maps) as they were.
\<close>

theorem visit_Rule_substring_guard:
  assumes "sel = a @ ''.'' @ noWebpClass opts @ b"
  shows "visit_Rule opts (Rule j sel kids) st = (Rule j sel kids, st)"
  using assms str_includes_mid [of a "''.'' @ noWebpClass opts" b]
  by (simp add: visit_Rule_skip)

theorem visit_Rule_substring_guard_witness:
  "''.no-webp-banner'' = [] @ ''.'' @ noWebpClass default_options @ ''-banner''
   \<and> filter (predicate default_options) (decls_of (nodes_of banner_rule)) \<noteq> []
   \<and> visit_Rule default_options banner_rule (init_state 1) = (banner_rule, init_state 1)"
proof -
  have a: "''.no-webp-banner'' = [] @ ''.'' @ noWebpClass default_options @ ''-banner''"
    by (simp add: default_options_def)
  have c: "filter (predicate default_options) (decls_of (nodes_of banner_rule)) \<noteq> []"
    by (simp add: banner_rule_def default_options_def default_predicate_def re_match_ext
        ci_char_tok)
  from visit_Rule_substring_guard [OF a, of 0 "nodes_of banner_rule" "init_state 1"]
  have "visit_Rule default_options banner_rule (init_state 1) = (banner_rule, init_state 1)"
    by (simp add: banner_rule_def)
  with a c show ?thesis by blast
qed

end
